theory Spec2Isabelle
  imports Complex_Main "HOL-Library.Log_Nat"
begin

section \<open>Python numbers\<close>

text \<open>
  The geometry of \<^verbatim>\<open>src/ad_generation/generate_with_ai.py\<close> mixes Python integers
  (unbounded, modelled as \<^typ>\<open>int\<close>) with Python floats (IEEE 754 binary64). Every float
  the code computes comes from one correctly rounded operation on exact operands, so a
  finite float is modelled by the rational number it denotes, and an operation by the exact
  result followed by rounding to the nearest binary64 value, ties to even.
\<close>

subsection \<open>Rounding to binary64\<close>

definition round_half_even :: "rat \<Rightarrow> int" where
  "round_half_even x =
     (let f = \<lfloor>x\<rfloor>; d = x - of_int f
      in if d < 1 / 2 then f else if 1 / 2 < d then f + 1 else if even f then f else f + 1)"

text \<open>\<open>ilog2 x\<close> is the binary exponent of a positive \<open>x\<close>: \<open>2 ^ e \<le> x < 2 ^ (e + 1)\<close>.\<close>

definition ilog2 :: "rat \<Rightarrow> int" where
  "ilog2 x = (if 1 \<le> x then bitlen \<lfloor>x\<rfloor> - 1 else - bitlen (\<lceil>1 / x\<rceil> - 1))"

text \<open>
  The exponent of the unit in the last place: 53 significant bits, and the fixed spacing
  \<open>2 ^ -1074\<close> of the subnormal numbers below \<open>2 ^ -1022\<close>.
\<close>

definition quantum_exp :: "rat \<Rightarrow> int" where
  "quantum_exp x = max (ilog2 \<bar>x\<bar>) (- 1022) - 52"

definition round_double :: "rat \<Rightarrow> rat" where
  "round_double x =
     (if x = 0 then 0
      else of_int (round_half_even (x / 2 powi quantum_exp x)) * 2 powi quantum_exp x)"

subsection \<open>The operations the code uses\<close>

text \<open>
  The exceptions a call can end in: the two that the arithmetic of the code raises, and
  those that come out of the imaging library, \<^verbatim>\<open>ValueError\<close> or any other, by its name.
\<close>

datatype error = ZeroDivisionError | OverflowError | ValueError | OtherError string

definition ebind :: "error + 'a \<Rightarrow> ('a \<Rightarrow> error + 'b) \<Rightarrow> error + 'b" where
  "ebind m f = (case m of Inl e \<Rightarrow> Inl e | Inr v \<Rightarrow> f v)"

text \<open>A float result: finite, or an infinity when the rounded value leaves the format.\<close>

datatype pyfloat = Finite rat | PosInf | NegInf

definition float_result :: "rat \<Rightarrow> pyfloat" where
  "float_result x =
     (let r = round_double x
      in if 2 ^ 1024 \<le> r then PosInf else if r \<le> - (2 ^ 1024) then NegInf else Finite r)"

text \<open>\<^verbatim>\<open>a / b\<close> on two integers: correctly rounded, and raising instead of returning an infinity.\<close>

definition int_truediv :: "int \<Rightarrow> int \<Rightarrow> error + rat" where
  "int_truediv a b =
     (if b = 0 then Inl ZeroDivisionError
      else case float_result (of_int a / of_int b) of
             Finite r \<Rightarrow> Inr r
           | _ \<Rightarrow> Inl OverflowError)"

text \<open>The conversion of an integer operand in a mixed operation.\<close>

definition float_of_int :: "int \<Rightarrow> error + rat" where
  "float_of_int n =
     (case float_result (of_int n) of Finite r \<Rightarrow> Inr r | _ \<Rightarrow> Inl OverflowError)"

text \<open>\<^verbatim>\<open>n * a\<close> and \<^verbatim>\<open>n / a\<close> for an integer \<open>n\<close> and a finite float \<open>a\<close>.\<close>

definition int_mul_float :: "int \<Rightarrow> rat \<Rightarrow> error + pyfloat" where
  "int_mul_float n a = ebind (float_of_int n) (\<lambda>f. Inr (float_result (f * a)))"

definition int_div_float :: "int \<Rightarrow> rat \<Rightarrow> error + pyfloat" where
  "int_div_float n a =
     ebind (float_of_int n)
       (\<lambda>f. if a = 0 then Inl ZeroDivisionError else Inr (float_result (f / a)))"

text \<open>\<^verbatim>\<open>int(x)\<close> truncates towards zero and raises on an infinity.\<close>

definition py_int :: "pyfloat \<Rightarrow> error + int" where
  "py_int x =
     (case x of
        Finite r \<Rightarrow> Inr (if 0 \<le> r then \<lfloor>r\<rfloor> else \<lceil>r\<rceil>)
      | _ \<Rightarrow> Inl OverflowError)"

section \<open>Images and the imaging library\<close>

text \<open>
  The pixel data is opaque to the geometry: a source image is its \<^verbatim>\<open>image.size\<close>, the
  pair (width, height). The variable \<^verbatim>\<open>cropped\<close> holds the source itself or what
  \<^verbatim>\<open>image.crop\<close> returned for a box (left, upper, right, lower). A frame is what
  \<^verbatim>\<open>cropped.resize\<close> returned: the image it was made from, and the size of the result as
  the library reports it.
\<close>

type_synonym source_image = "int \<times> int"

datatype cropping = Uncropped | Crop int int int int

record frame =
  cropping :: cropping
  dims :: "int \<times> int"

text \<open>
  The animation handed to \<^verbatim>\<open>frames[0].save\<close>: the first frame, the remaining frames as
  \<^verbatim>\<open>append_images\<close>, the duration and \<^verbatim>\<open>loop=0\<close>.
\<close>

record gif =
  path :: string
  first_frame :: frame
  append_images :: "frame list"
  duration :: int
  loop :: int

text \<open>
  The imaging library is not part of the program, so its three calls are a parameter of
  the model. Each of them may raise: \<^verbatim>\<open>crop\<close> on a box of an image, \<^verbatim>\<open>resize\<close> on a
  cropped image and a size, where it otherwise answers with the size of the image it
  returns, and \<^verbatim>\<open>save\<close> on an animation.
\<close>

record library =
  crop_raises :: "source_image \<Rightarrow> int \<times> int \<times> int \<times> int \<Rightarrow> error option"
  resize_returns :: "source_image \<Rightarrow> cropping \<Rightarrow> int \<times> int \<Rightarrow> error + int \<times> int"
  save_raises :: "gif \<Rightarrow> error option"

definition image_crop ::
  "library \<Rightarrow> source_image \<Rightarrow> int \<times> int \<times> int \<times> int \<Rightarrow> error + cropping" where
  "image_crop lib img box =
     (case crop_raises lib img box of
        Some e \<Rightarrow> Inl e
      | None \<Rightarrow> (case box of (left, upper, right, lower) \<Rightarrow> Inr (Crop left upper right lower)))"

definition image_resize ::
  "library \<Rightarrow> source_image \<Rightarrow> cropping \<Rightarrow> int \<times> int \<Rightarrow> error + frame" where
  "image_resize lib img cropped new_size =
     (case resize_returns lib img cropped new_size of
        Inl e \<Rightarrow> Inl e
      | Inr s \<Rightarrow> Inr \<lparr>cropping = cropped, dims = s\<rparr>)"

text \<open>The result of a save: the exception, or the file that has been written.\<close>

definition image_save :: "library \<Rightarrow> gif \<Rightarrow> error + gif option" where
  "image_save lib g = (case save_raises lib g of Some e \<Rightarrow> Inl e | None \<Rightarrow> Inr (Some g))"

section \<open>crop\_and\_resize\_to\_ad\_size\<close>

text \<open>
  Lines 89 to 110: the two aspect ratios, the crop that gives \<^verbatim>\<open>cropped\<close> (or the image
  itself when the ratios are equal), and the resize whose result is returned.
\<close>

definition crop_and_resize_to_ad_size ::
  "library \<Rightarrow> source_image \<Rightarrow> int \<Rightarrow> int \<Rightarrow> error + frame" where
  "crop_and_resize_to_ad_size lib img target_width target_height =
     (case img of (img_width, img_height) \<Rightarrow>
      ebind (int_truediv target_width target_height) (\<lambda>target_aspect.
      ebind (int_truediv img_width img_height) (\<lambda>current_aspect.
      ebind
        (if current_aspect > target_aspect then
           ebind (ebind (int_mul_float img_height target_aspect) py_int) (\<lambda>new_width.
             let left = (img_width - new_width) div 2
             in image_crop lib img (left, 0, left + new_width, img_height))
         else if current_aspect < target_aspect then
           ebind (ebind (int_div_float img_width target_aspect) py_int) (\<lambda>new_height.
             let top = (img_height - new_height) div 2
             in image_crop lib img (0, top, img_width, top + new_height))
         else Inr Uncropped)
        (\<lambda>cropped. image_resize lib img cropped (target_width, target_height)))))"

section \<open>create\_panning\_gif\<close>

text \<open>
  The window of the landscape branch (lines 127 to 133), as (crop\_width, crop\_height).
\<close>

definition landscape_window :: "source_image \<Rightarrow> rat \<Rightarrow> error + int \<times> int" where
  "landscape_window img target_aspect =
     (case img of (img_width, img_height) \<Rightarrow>
      ebind (ebind (int_div_float img_width target_aspect) py_int) (\<lambda>crop_height.
        if crop_height > img_height then
          ebind (ebind (int_mul_float img_height target_aspect) py_int) (\<lambda>crop_width.
            Inr (crop_width, img_height))
        else Inr (img_width, crop_height)))"

text \<open>The window of the portrait or square branch (lines 153 to 159).\<close>

definition portrait_window :: "source_image \<Rightarrow> rat \<Rightarrow> error + int \<times> int" where
  "portrait_window img target_aspect =
     (case img of (img_width, img_height) \<Rightarrow>
      ebind (ebind (int_mul_float img_height target_aspect) py_int) (\<lambda>crop_width.
        if crop_width > img_width then
          ebind (ebind (int_div_float img_width target_aspect) py_int) (\<lambda>crop_height.
            Inr (img_width, crop_height))
        else Inr (crop_width, img_height)))"

text \<open>
  The offset of frame \<open>i\<close> along the pan axis (lines 141 and 167):
  \<^verbatim>\<open>int((max_top * i) / (num_frames - 1)) if num_frames > 1 else 0\<close>.
\<close>

definition pan_offset :: "int \<Rightarrow> int \<Rightarrow> int \<Rightarrow> error + int" where
  "pan_offset max_offset num_frames i =
     (if num_frames > 1
      then ebind (int_truediv (max_offset * i) (num_frames - 1)) (\<lambda>q. py_int (Finite q))
      else Inr 0)"

text \<open>A \<^verbatim>\<open>for\<close> loop that appends one result per index and stops at the first exception.\<close>

fun collect :: "('a \<Rightarrow> error + 'b) \<Rightarrow> 'a list \<Rightarrow> error + 'b list" where
  "collect f [] = Inr []"
| "collect f (x # xs) =
     (case f x of
        Inl e \<Rightarrow> Inl e
      | Inr y \<Rightarrow> (case collect f xs of Inl e \<Rightarrow> Inl e | Inr ys \<Rightarrow> Inr (y # ys)))"

text \<open>The pan range of a call: \<^verbatim>\<open>max_top\<close> of the landscape branch, \<^verbatim>\<open>max_left\<close> of the other.\<close>

definition pan_range :: "source_image \<Rightarrow> int \<Rightarrow> int \<Rightarrow> error + int" where
  "pan_range img target_width target_height =
     (case img of (img_width, img_height) \<Rightarrow>
      ebind (int_truediv target_width target_height) (\<lambda>target_aspect.
        if target_width > target_height then
          ebind (landscape_window img target_aspect) (\<lambda>(crop_width, crop_height).
            Inr (img_height - crop_height))
        else
          ebind (portrait_window img target_aspect) (\<lambda>(crop_width, crop_height).
            Inr (img_width - crop_width))))"

text \<open>The list \<^verbatim>\<open>frames\<close> when the function reaches its last statement (lines 119 to 175).\<close>

definition pan_frames ::
  "library \<Rightarrow> source_image \<Rightarrow> int \<Rightarrow> int \<Rightarrow> int \<Rightarrow> error + frame list" where
  "pan_frames lib img target_width target_height num_frames =
     (case img of (img_width, img_height) \<Rightarrow>
      ebind (int_truediv target_width target_height) (\<lambda>target_aspect.
        if target_width > target_height then
          ebind (landscape_window img target_aspect) (\<lambda>(crop_width, crop_height).
            let max_top = img_height - crop_height
            in if max_top > 0 then
                 collect (\<lambda>i.
                   ebind (pan_offset max_top num_frames i) (\<lambda>top.
                     let left = (img_width - crop_width) div 2
                     in ebind (image_crop lib img
                                 (left, top, left + crop_width, top + crop_height))
                          (\<lambda>cropped. image_resize lib img cropped
                                        (target_width, target_height))))
                   [0..num_frames - 1]
               else
                 ebind (crop_and_resize_to_ad_size lib img target_width target_height)
                   (\<lambda>f. Inr [f]))
        else
          ebind (portrait_window img target_aspect) (\<lambda>(crop_width, crop_height).
            let max_left = img_width - crop_width
            in if max_left > 0 then
                 collect (\<lambda>i.
                   ebind (pan_offset max_left num_frames i) (\<lambda>left.
                     let top = (img_height - crop_height) div 2
                     in ebind (image_crop lib img
                                 (left, top, left + crop_width, top + crop_height))
                          (\<lambda>cropped. image_resize lib img cropped
                                        (target_width, target_height))))
                   [0..num_frames - 1]
               else
                 ebind (crop_and_resize_to_ad_size lib img target_width target_height)
                   (\<lambda>f. Inr [f]))))"

text \<open>
  The whole call: the frames, then the trailing \<^verbatim>\<open>if frames: frames[0].save(...)\<close>. The
  result is the file written, or \<open>None\<close> when the list is empty and nothing is saved.
\<close>

definition create_panning_gif ::
  "library \<Rightarrow> source_image \<Rightarrow> int \<Rightarrow> int \<Rightarrow> string \<Rightarrow> int \<Rightarrow> int \<Rightarrow> error + gif option" where
  "create_panning_gif lib img target_width target_height output_path num_frames dur =
     ebind (pan_frames lib img target_width target_height num_frames) (\<lambda>frames.
       case frames of
         [] \<Rightarrow> Inr None
       | f # fs \<Rightarrow>
           image_save lib \<lparr>path = output_path, first_frame = f, append_images = fs,
                            duration = dur, loop = 0\<rparr>)"

section \<open>The vocabulary of the specification\<close>

text \<open>
  An extent of a raster held in memory, in pixels: positive, and far below \<open>2 ^ 53\<close>, so
  that the conversion to a float is exact. (The imaging library stores both extents of an
  image in 32-bit integers.)
\<close>

definition dimension :: "int \<Rightarrow> bool" where
  "dimension d = (0 < d \<and> d < 2 ^ 53)"

text \<open>The crop window of a frame lies within the source image.\<close>

definition in_bounds :: "source_image \<Rightarrow> frame \<Rightarrow> bool" where
  "in_bounds img f =
     (case img of (img_width, img_height) \<Rightarrow>
      case cropping f of
        Uncropped \<Rightarrow> True
      | Crop left upper right lower \<Rightarrow>
          0 \<le> left \<and> right \<le> img_width \<and> 0 \<le> upper \<and> lower \<le> img_height)"

text \<open>
  The offset of a frame's window along the pan axis: its upper edge when the pan is
  vertical (\<open>target_width > target_height\<close>), its left edge otherwise.
\<close>

definition pan_position :: "int \<Rightarrow> int \<Rightarrow> frame \<Rightarrow> int" where
  "pan_position target_width target_height f =
     (case cropping f of
        Uncropped \<Rightarrow> 0
      | Crop left upper right lower \<Rightarrow> if target_width > target_height then upper else left)"

text \<open>
  A library that returns from every call, with an image of the size asked for; and one
  that refuses to resize to a size with an extent below 1.
\<close>

definition ideal_library :: library where
  "ideal_library =
     \<lparr>crop_raises = (\<lambda>img box. None),
      resize_returns = (\<lambda>img cropped new_size. Inr new_size),
      save_raises = (\<lambda>g. None)\<rparr>"

definition strict_library :: library where
  "strict_library =
     \<lparr>crop_raises = (\<lambda>img box. None),
      resize_returns = (\<lambda>img cropped new_size.
        if fst new_size < 1 \<or> snd new_size < 1 then Inl ValueError else Inr new_size),
      save_raises = (\<lambda>g. None)\<rparr>"

text \<open>The contract of \<^verbatim>\<open>resize\<close>: the image it returns has the size that was asked for.\<close>

definition resize_contract :: "library \<Rightarrow> bool" where
  "resize_contract lib =
     (\<forall>img cropped new_size s.
        resize_returns lib img cropped new_size = Inr s \<longrightarrow> s = new_size)"

text \<open>A library none of whose calls raises.\<close>

definition never_raises :: "library \<Rightarrow> bool" where
  "never_raises lib =
     ((\<forall>img box. crop_raises lib img box = None)
      \<and> (\<forall>img cropped new_size. \<exists>s. resize_returns lib img cropped new_size = Inr s)
      \<and> (\<forall>g. save_raises lib g = None))"

text \<open>
  The exception \<open>e\<close> comes out of the library: out of a crop of the image, or out of a
  resize to the size.
\<close>

definition raised_by :: "library \<Rightarrow> source_image \<Rightarrow> int \<times> int \<Rightarrow> error \<Rightarrow> bool" where
  "raised_by lib img new_size e =
     ((\<exists>box. crop_raises lib img box = Some e)
      \<or> (\<exists>cropped. resize_returns lib img cropped new_size = Inl e))"

text \<open>
  The library made to refuse every crop whose box leaves the image. A call that has the
  same outcome with it makes no such crop, whether or not its library calls return.
\<close>

definition box_in_image :: "source_image \<Rightarrow> int \<times> int \<times> int \<times> int \<Rightarrow> bool" where
  "box_in_image img box =
     (case img of (img_width, img_height) \<Rightarrow>
      case box of (left, upper, right, lower) \<Rightarrow>
        0 \<le> left \<and> right \<le> img_width \<and> 0 \<le> upper \<and> lower \<le> img_height)"

definition bounded_crops :: "library \<Rightarrow> library" where
  "bounded_crops lib =
     lib\<lparr>crop_raises := (\<lambda>img box.
       if box_in_image img box then crop_raises lib img box else Some ValueError)\<rparr>"

section \<open>Properties of the rounding\<close>

lemma ilog2_ge1:
  assumes "1 \<le> x"
  shows "2 powi ilog2 x \<le> x \<and> x < 2 powi (ilog2 x + 1)"
proof -
  define n where "n = \<lfloor>x\<rfloor>"
  have n1: "1 \<le> n" using assms by (simp add: n_def le_floor_iff)
  then have n0: "0 < n" by simp
  define b where "b = bitlen n"
  have bb: "2 ^ nat (b - 1) \<le> n" "n < 2 ^ nat b"
    using bitlen_bounds[OF n0] by (simp_all add: b_def)
  have b1: "1 \<le> b" using n0 bitlen_eq_zero_iff[of n] bitlen_nonneg[of n] by (simp add: b_def) 
  have e: "ilog2 x = b - 1" using assms by (simp add: ilog2_def b_def n_def)
  have "(2::rat) powi (b - 1) = of_int (2 ^ nat (b - 1))"
    using b1 by (simp add: power_int_def)
  also have "\<dots> \<le> of_int n" using bb(1) by (simp only: of_int_le_iff)
  also have "\<dots> \<le> x" by (simp add: n_def)
  finally have lo: "2 powi (b - 1) \<le> x" .
  have "x < of_int (n + 1)" by (simp add: n_def) linarith
  also have "\<dots> \<le> of_int (2 ^ nat b)" using bb(2) by (simp only: of_int_le_iff)
  also have "\<dots> = (2::rat) powi b" using b1 by (simp add: power_int_def)
  finally have hi: "x < 2 powi b" .
  show ?thesis using lo hi by (simp add: e)
qed

lemma ilog2_lt1:
  assumes "0 < x" "x < 1"
  shows "2 powi ilog2 x \<le> x \<and> x < 2 powi (ilog2 x + 1)"
proof -
  define y where "y = 1 / x"
  have y1: "1 < y" using assms by (simp add: y_def)
  define n where "n = \<lceil>y\<rceil> - 1"
  have n1: "1 \<le> n" using y1 by (simp add: n_def less_ceiling_iff)
  then have n0: "0 < n" by simp
  define k where "k = bitlen n"
  have kb: "2 ^ nat (k - 1) \<le> n" "n < 2 ^ nat k"
    using bitlen_bounds[OF n0] by (simp_all add: k_def)
  have k1: "1 \<le> k" using n0 bitlen_eq_zero_iff[of n] bitlen_nonneg[of n] by (simp add: k_def)
  have e: "ilog2 x = - k" using assms by (simp add: ilog2_def k_def n_def y_def)
  have ny: "of_int n < y" by (simp add: n_def) linarith
  have yn: "y \<le> of_int (n + 1)" by (simp add: n_def)
  have "y \<le> of_int (n + 1)" by (rule yn)
  also have "\<dots> \<le> of_int (2 ^ nat k)" using kb(2) by (simp only: of_int_le_iff)
  also have "\<dots> = (2::rat) ^ nat k" by simp
  finally have yk: "y \<le> 2 ^ nat k" .
  have "(2::rat) ^ nat (k - 1) = of_int (2 ^ nat (k - 1))" by simp
  also have "\<dots> \<le> of_int n" using kb(1) by (simp only: of_int_le_iff)
  also have "\<dots> < y" by (rule ny)
  finally have ky: "2 ^ nat (k - 1) < y" .
  have lo: "2 powi (- k) \<le> x"
  proof -
    have "1 / 2 ^ nat k \<le> 1 / y" using yk y1 by (simp add: frac_le)
    moreover have "(2::rat) powi (- k) = 1 / 2 ^ nat k"
      using k1 by (simp add: power_int_def inverse_eq_divide power_one_over)
    ultimately show ?thesis using assms by (simp add: y_def)
  qed
  have hi: "x < 2 powi (- k + 1)"
  proof -
    have "1 / y < 1 / 2 ^ nat (k - 1)" using ky by (simp add: frac_less2)
    moreover have "(2::rat) powi (- (k - 1)) = 1 / 2 ^ nat (k - 1)"
      using k1 by (simp add: power_int_def inverse_eq_divide power_one_over)
    moreover have "- k + 1 = - (k - 1)" by simp
    ultimately show ?thesis using assms by (simp add: y_def)
  qed
  show ?thesis using lo hi by (simp add: e)
qed

lemma ilog2_bounds:
  assumes "0 < x"
  shows "2 powi ilog2 x \<le> x" and "x < 2 powi (ilog2 x + 1)"
  using ilog2_ge1[of x] ilog2_lt1[of x] assms by (cases "1 \<le> x"; simp)+


lemma ilog2_less:
  assumes "0 < x" "x < 2 powi e"
  shows "ilog2 x < e"
proof (rule ccontr)
  assume "\<not> ilog2 x < e"
  then have "e \<le> ilog2 x" by simp
  then have "(2::rat) powi e \<le> 2 powi ilog2 x" by (simp add: power_int_increasing)
  also have "\<dots> \<le> x" using assms(1) by (rule ilog2_bounds)
  finally show False using assms(2) by simp
qed

lemma ilog2_ge:
  assumes "0 < x" "2 powi e \<le> x"
  shows "e \<le> ilog2 x"
proof (rule ccontr)
  assume "\<not> e \<le> ilog2 x"
  then have "ilog2 x + 1 \<le> e" by simp
  then have "(2::rat) powi (ilog2 x + 1) \<le> 2 powi e" by (simp add: power_int_increasing)
  moreover have "x < 2 powi (ilog2 x + 1)" using assms(1) by (rule ilog2_bounds)
  ultimately show False using assms(2) by simp
qed

lemma ilog2_unique:
  assumes "2 powi e \<le> x" "x < 2 powi (e + 1)"
  shows "ilog2 x = e"
proof -
  have "(0::rat) < 2 powi e" by simp
  then have x0: "0 < x" using assms(1) by (rule less_le_trans)
  have "ilog2 x < e + 1" using x0 assms(2) by (rule ilog2_less)
  moreover have "e \<le> ilog2 x" using x0 assms(1) by (rule ilog2_ge)
  ultimately show ?thesis by simp
qed

lemma ilog2_mono:
  assumes "0 < x" "x \<le> y"
  shows "ilog2 x \<le> ilog2 y"
proof -
  have "2 powi ilog2 x \<le> x" using assms(1) by (rule ilog2_bounds)
  then have "2 powi ilog2 x \<le> y" using assms(2) by simp
  moreover have "0 < y" using assms by simp
  ultimately show ?thesis by (simp add: ilog2_ge)
qed

lemma round_half_even_of_int: "round_half_even (of_int n) = n"
  by (simp add: round_half_even_def)

lemma round_half_even_range:
  "\<lfloor>x\<rfloor> \<le> round_half_even x" "round_half_even x \<le> \<lfloor>x\<rfloor> + 1"
  by (simp_all add: round_half_even_def Let_def)

lemma round_half_even_mono:
  assumes "x \<le> y"
  shows "round_half_even x \<le> round_half_even y"
proof (cases "\<lfloor>x\<rfloor> = \<lfloor>y\<rfloor>")
  case True
  then have "x - of_int \<lfloor>x\<rfloor> \<le> y - of_int \<lfloor>y\<rfloor>" using assms by simp
  then show ?thesis using True by (auto simp add: round_half_even_def Let_def)
next
  case False
  have "\<lfloor>x\<rfloor> \<le> \<lfloor>y\<rfloor>" using assms by (rule floor_mono)
  then have "\<lfloor>x\<rfloor> + 1 \<le> \<lfloor>y\<rfloor>" using False by simp
  then show ?thesis
    using round_half_even_range(2)[of x] round_half_even_range(1)[of y] by linarith
qed

lemma round_half_even_le:
  assumes "x \<le> of_int n"
  shows "round_half_even x \<le> n"
  using round_half_even_mono[OF assms] by (simp add: round_half_even_of_int)

lemma round_half_even_ge:
  assumes "of_int n \<le> x"
  shows "n \<le> round_half_even x"
  using round_half_even_mono[OF assms] by (simp add: round_half_even_of_int)


lemma scale_mono:
  assumes "(a::int) \<le> b"
  shows "(of_int a :: rat) * 2 powi q \<le> of_int b * 2 powi q"
  using assms by (simp add: mult_right_mono)

lemma round_double_nonneg:
  assumes "0 \<le> x"
  shows "0 \<le> round_double x"
proof (cases "x = 0")
  case True
  then show ?thesis by (simp add: round_double_def)
next
  case False
  have "of_int 0 \<le> x / 2 powi quantum_exp x" using assms by simp
  then have "0 \<le> round_half_even (x / 2 powi quantum_exp x)" by (rule round_half_even_ge)
  then show ?thesis using False by (simp add: round_double_def)
qed

lemma round_double_upper:
  assumes "0 < x"
  shows "round_double x \<le> 2 powi (quantum_exp x + 53)"
proof -
  define q where "q = quantum_exp x"
  have Q: "(0::rat) < 2 powi q" by simp
  have split: "(2::rat) powi (q + 53) = of_int (2 ^ 53) * 2 powi q"
    by (simp add: power_int_add)
  have "ilog2 x + 1 \<le> q + 53" using assms by (simp add: q_def quantum_exp_def)
  then have "(2::rat) powi (ilog2 x + 1) \<le> 2 powi (q + 53)"
    by (simp add: power_int_increasing)
  moreover have "x < 2 powi (ilog2 x + 1)" using assms by (rule ilog2_bounds)
  ultimately have "x \<le> of_int (2 ^ 53) * 2 powi q" by (simp only: split)
  then have "x / 2 powi q \<le> of_int (2 ^ 53)" using Q by (simp only: pos_divide_le_eq)
  then have "round_half_even (x / 2 powi q) \<le> 2 ^ 53" by (rule round_half_even_le)
  then have "(of_int (round_half_even (x / 2 powi q)) :: rat) * 2 powi q
      \<le> of_int (2 ^ 53) * 2 powi q"
    by (rule scale_mono)
  moreover have "round_double x = of_int (round_half_even (x / 2 powi q)) * 2 powi q"
    using assms by (simp add: round_double_def q_def)
  ultimately have "round_double x \<le> 2 powi (q + 53)" by (simp only: split)
  then show ?thesis by (simp only: q_def)
qed

lemma round_double_lower:
  assumes "0 < x" "- 1022 \<le> ilog2 x"
  shows "2 powi ilog2 x \<le> round_double x"
proof -
  define q where "q = quantum_exp x"
  have Q: "(0::rat) < 2 powi q" by simp
  have qe: "ilog2 x = q + 52" using assms by (simp add: q_def quantum_exp_def)
  have split: "(2::rat) powi (q + 52) = of_int (2 ^ 52) * 2 powi q"
    by (simp add: power_int_add)
  have "2 powi ilog2 x \<le> x" using assms(1) by (rule ilog2_bounds)
  then have "of_int (2 ^ 52) * 2 powi q \<le> x" by (simp only: qe split)
  then have "of_int (2 ^ 52) \<le> x / 2 powi q" using Q by (simp only: pos_le_divide_eq)
  then have "2 ^ 52 \<le> round_half_even (x / 2 powi q)" by (rule round_half_even_ge)
  then have "(of_int (2 ^ 52) :: rat) * 2 powi q
      \<le> of_int (round_half_even (x / 2 powi q)) * 2 powi q"
    by (rule scale_mono)
  then show ?thesis using assms(1) by (simp only: qe split) (simp add: round_double_def q_def)
qed

lemma round_double_mono_pos:
  assumes "0 < x" "x \<le> y"
  shows "round_double x \<le> round_double y"
proof -
  have y0: "0 < y" using assms by simp
  have le: "quantum_exp x \<le> quantum_exp y"
    using ilog2_mono[OF assms] assms y0 by (simp add: quantum_exp_def)
  show ?thesis
  proof (cases "quantum_exp x = quantum_exp y")
    case True
    define q where "q = quantum_exp y"
    have Q: "(0::rat) < 2 powi q" by simp
    have "x / 2 powi q \<le> y / 2 powi q" using assms(2) by (simp add: divide_right_mono)
    then have "round_half_even (x / 2 powi q) \<le> round_half_even (y / 2 powi q)"
      by (rule round_half_even_mono)
    then have "(of_int (round_half_even (x / 2 powi q)) :: rat) * 2 powi q
        \<le> of_int (round_half_even (y / 2 powi q)) * 2 powi q"
      by (rule scale_mono)
    then show ?thesis using assms(1) y0 True by (simp add: round_double_def q_def)
  next
    case False
    then have lt: "quantum_exp x < quantum_exp y" using le by simp
    then have big: "- 1022 < ilog2 y" and qy: "quantum_exp y = ilog2 y - 52"
      using y0 by (simp_all add: quantum_exp_def max_def split: if_splits)
    have "quantum_exp x + 53 \<le> ilog2 y" using lt qy by simp
    then have "(2::rat) powi (quantum_exp x + 53) \<le> 2 powi ilog2 y"
      by (simp add: power_int_increasing)
    moreover have "round_double x \<le> 2 powi (quantum_exp x + 53)"
      using assms(1) by (rule round_double_upper)
    moreover have "2 powi ilog2 y \<le> round_double y"
      using y0 big by (simp add: round_double_lower)
    ultimately show ?thesis by simp
  qed
qed

lemma round_double_mono:
  assumes "0 \<le> x" "x \<le> y"
  shows "round_double x \<le> round_double y"
proof (cases "x = 0")
  case True
  have "0 \<le> round_double y" using assms by (simp add: round_double_nonneg)
  then show ?thesis using True by (simp add: round_double_def)
next
  case False
  then have "0 < x" using assms(1) by simp
  then show ?thesis using assms(2) by (rule round_double_mono_pos)
qed

lemma quantum_exp_ge: "- 1074 \<le> quantum_exp x"
  by (simp add: quantum_exp_def)

lemma mantissa_le:
  assumes "0 < x"
  shows "round_half_even (x / 2 powi quantum_exp x) \<le> 2 ^ 53"
proof -
  define q where "q = quantum_exp x"
  have Q: "(0::rat) < 2 powi q" by simp
  have split: "(2::rat) powi (q + 53) = of_int (2 ^ 53) * 2 powi q"
    by (simp add: power_int_add)
  have "ilog2 x + 1 \<le> q + 53" using assms by (simp add: q_def quantum_exp_def)
  then have "(2::rat) powi (ilog2 x + 1) \<le> 2 powi (q + 53)"
    by (simp add: power_int_increasing)
  moreover have "x < 2 powi (ilog2 x + 1)" using assms by (rule ilog2_bounds)
  ultimately have "x \<le> of_int (2 ^ 53) * 2 powi q" by (simp only: split)
  then have "x / 2 powi q \<le> of_int (2 ^ 53)" using Q by (simp only: pos_divide_le_eq)
  then have "round_half_even (x / 2 powi q) \<le> 2 ^ 53" by (rule round_half_even_le)
  then show ?thesis by (simp only: q_def)
qed

lemma round_double_dyadic:
  assumes "0 < m" "m < 2 ^ 53" "- 1074 \<le> k"
  shows "round_double (of_int m * 2 powi k) = of_int m * 2 powi k"
proof -
  define x where "x = (of_int m :: rat) * 2 powi k"
  define q where "q = quantum_exp x"
  have m0: "(0::rat) < of_int m" using assms(1) by simp
  have x0: "0 < x" using m0 by (simp add: x_def)
  have "(of_int m :: rat) < of_int (2 ^ 53)" using assms(2) by (simp only: of_int_less_iff)
  then have "x < of_int (2 ^ 53) * 2 powi k" by (simp add: x_def)
  also have "\<dots> = 2 powi (k + 53)" by (simp add: power_int_add)
  finally have "x < 2 powi (k + 53)" .
  with x0 have "ilog2 x < k + 53" by (rule ilog2_less)
  then have qk: "q \<le> k" using x0 assms(3) by (simp add: q_def quantum_exp_def)
  define d where "d = nat (k - q)"
  have "k = q + int d" using qk by (simp add: d_def)
  then have pk: "(2::rat) powi k = 2 powi q * 2 ^ d" by (simp add: power_int_add)
  have "x / 2 powi q = of_int m * 2 ^ d" by (simp add: x_def pk)
  also have "\<dots> = of_int (m * 2 ^ d)" by simp
  finally have "round_half_even (x / 2 powi q) = m * 2 ^ d"
    by (simp only: round_half_even_of_int)
  then have "round_double x = of_int (m * 2 ^ d) * 2 powi q"
    using x0 by (simp add: round_double_def q_def)
  also have "\<dots> = x" by (simp add: x_def pk)
  finally show ?thesis by (simp only: x_def)
qed

lemma round_double_of_int:
  assumes "0 \<le> n" "n < 2 ^ 53"
  shows "round_double (of_int n) = of_int n"
proof (cases "n = 0")
  case True
  then show ?thesis by (simp add: round_double_def)
next
  case False
  then have "0 < n" using assms(1) by simp
  then show ?thesis using round_double_dyadic[of n 0] assms(2) by simp
qed

lemma round_double_idem:
  assumes "0 \<le> x"
  shows "round_double (round_double x) = round_double x"
proof (cases "x = 0")
  case True
  then show ?thesis by (simp add: round_double_def)
next
  case False
  then have x0: "0 < x" using assms by simp
  define q where "q = quantum_exp x"
  define M where "M = round_half_even (x / 2 powi q)"
  have rd: "round_double x = of_int M * 2 powi q"
    using False by (simp add: round_double_def q_def M_def)
  have q74: "- 1074 \<le> q" by (simp add: q_def quantum_exp_ge)
  have "of_int 0 \<le> x / 2 powi q" using assms by simp
  then have M0: "0 \<le> M" unfolding M_def by (rule round_half_even_ge)
  have M53: "M \<le> 2 ^ 53" using mantissa_le[OF x0] by (simp add: M_def q_def)
  consider "M = 0" | "0 < M" "M < 2 ^ 53" | "M = 2 ^ 53" using M0 M53 by linarith
  then show ?thesis
  proof cases
    case 1
    then have "round_double x = 0" by (simp add: rd)
    then show ?thesis by (simp add: round_double_def)
  next
    case 2
    then show ?thesis using q74 by (simp only: rd round_double_dyadic)
  next
    case 3
    have "(of_int M :: rat) * 2 powi q = of_int (2 ^ 52) * 2 powi (q + 1)"
      by (simp add: 3 power_int_add)
    moreover have "round_double (of_int (2 ^ 52) * 2 powi (q + 1)) = of_int (2 ^ 52) * 2 powi (q + 1)"
      using q74 by (intro round_double_dyadic) simp_all
    ultimately show ?thesis by (simp only: rd)
  qed
qed

lemma floor_round_nonneg:
  assumes "0 \<le> x"
  shows "0 \<le> \<lfloor>round_double x\<rfloor>"
  using round_double_nonneg[OF assms] by simp

lemma round_le_int:
  assumes "0 \<le> x" "x \<le> of_int N" "N < 2 ^ 53"
  shows "round_double x \<le> of_int N"
proof -
  have N0: "0 \<le> N"
  proof -
    have "(0::rat) \<le> of_int N" using assms(1,2) by (rule order_trans)
    then show ?thesis by simp
  qed
  have "round_double x \<le> round_double (of_int N)" using assms(1,2) by (rule round_double_mono)
  then show ?thesis using N0 assms(3) by (simp only: round_double_of_int)
qed

lemma floor_round_le:
  assumes "0 \<le> x" "x \<le> of_int N" "N < 2 ^ 53"
  shows "\<lfloor>round_double x\<rfloor> \<le> N"
proof -
  have "round_double x \<le> of_int N" using assms by (rule round_le_int)
  then have "\<lfloor>round_double x\<rfloor> \<le> \<lfloor>(of_int N :: rat)\<rfloor>" by (rule floor_mono)
  then show ?thesis by simp
qed

lemma floor_round_gt:
  assumes "0 \<le> x" "N < 2 ^ 53" "N < \<lfloor>round_double x\<rfloor>"
  shows "of_int N < x"
proof (rule ccontr)
  assume "\<not> of_int N < x"
  then have "x \<le> of_int N" by simp
  with assms(1) have "\<lfloor>round_double x\<rfloor> \<le> N" using assms(2) by (rule floor_round_le)
  then show False using assms(3) by simp
qed

lemma round_ge_int:
  assumes "0 \<le> N" "N < 2 ^ 53" "of_int N \<le> x"
  shows "of_int N \<le> round_double x"
proof -
  have "(0::rat) \<le> of_int N" using assms(1) by simp
  then have "round_double (of_int N) \<le> round_double x" using assms(3) by (rule round_double_mono)
  then show ?thesis using assms(1,2) by (simp only: round_double_of_int)
qed

text \<open>Below a fixed point of the rounding, a rounded value stays below it.\<close>

lemma round_lt_fixed:
  assumes "0 \<le> t" "round_double t < round_double c" "0 \<le> c"
  shows "round_double t \<le> c"
proof (rule ccontr)
  assume "\<not> round_double t \<le> c"
  then have "c \<le> round_double t" by simp
  with assms(3) have "round_double c \<le> round_double (round_double t)"
    by (rule round_double_mono)
  then have "round_double c \<le> round_double t" using assms(1) by (simp only: round_double_idem)
  then show False using assms(2) by simp
qed

lemma pow2_cover:
  assumes "0 < (b::int)"
  shows "\<exists>k. b \<le> 2 ^ k \<and> 2 ^ k \<le> 2 * b"
proof -
  define k where "k = nat (bitlen b)"
  have bb: "2 ^ nat (bitlen b - 1) \<le> b" "b < 2 ^ nat (bitlen b)"
    using bitlen_bounds[OF assms] by simp_all
  have b1: "1 \<le> bitlen b" using assms bitlen_eq_zero_iff[of b] bitlen_nonneg[of b] by simp
  then have "k = Suc (nat (bitlen b - 1))" by (simp add: k_def)
  then have "(2::int) ^ k = 2 * 2 ^ nat (bitlen b - 1)" by simp
  then have "(2::int) ^ k \<le> 2 * b" using bb(1) by simp
  moreover have "b \<le> 2 ^ k" using bb(2) by (simp add: k_def)
  ultimately show ?thesis by blast
qed

lemma floor_round_quotient:
  assumes "0 \<le> a" "0 < b" "a + b \<le> 2 ^ 52"
  shows "\<lfloor>round_double (of_int a / of_int b)\<rfloor> = a div b"
proof -
  define q where "q = a div b"
  define r where "r = a mod b"
  define x where "x = (of_int a :: rat) / of_int b"
  have b0: "(0::rat) < of_int b" using assms(2) by simp
  have a_eq: "a = q * b + r" by (simp add: q_def r_def)
  have r0: "0 \<le> r" and rb: "r < b" using assms(2) by (simp_all add: r_def)
  have q0: "0 \<le> q" using assms(1,2) by (simp add: q_def pos_imp_zdiv_nonneg_iff)
  have "q * 1 \<le> q * b" using q0 assms(2) by (intro mult_left_mono) simp_all
  then have qa: "q \<le> a" using a_eq r0 by simp
  have q53: "q < 2 ^ 53" using qa assms(2,3) by simp
  have x0: "0 \<le> x" using assms(1) b0 by (simp add: x_def)
  have x_eq: "x = of_int q + of_int r / of_int b"
    using b0 by (simp add: x_def a_eq add_divide_distrib)
  have qx: "of_int q \<le> x" using r0 b0 by (simp add: x_eq)
  have lo: "q \<le> \<lfloor>round_double x\<rfloor>"
    using round_ge_int[OF q0 q53 qx] by (simp add: le_floor_iff)
  obtain k where k: "b \<le> 2 ^ k" "2 ^ k \<le> 2 * b" using pow2_cover[OF assms(2)] by blast
  define m where "m = (q + 1) * 2 ^ k - 1"
  define y where "y = (of_int m :: rat) * 2 powi (- int k)"
  have two_k: "(0::int) < 2 ^ k" by simp
  have "q * b \<le> a" using a_eq r0 by simp
  then have "(q + 1) * (2 * b) \<le> 2 * (a + b)" by (simp add: algebra_simps)
  moreover have "(q + 1) * 2 ^ k \<le> (q + 1) * (2 * b)"
    using k(2) q0 by (simp add: mult_left_mono)
  ultimately have "(q + 1) * 2 ^ k \<le> 2 ^ 53" using assms(3) by simp
  then have m53: "m < 2 ^ 53" by (simp add: m_def)
  have "1 * 1 \<le> (q + 1) * 2 ^ k" using q0 two_k by (intro mult_mono) simp_all
  then have m0: "0 \<le> m" by (simp add: m_def)
  have k2: "(2::int) ^ k \<le> 2 ^ 53"
  proof -
    have "(2::int) ^ k \<le> 2 * b" by (rule k(2))
    also have "\<dots> \<le> 2 * 2 ^ 52" using assms(1,3) by simp
    finally show ?thesis by simp
  qed
  have "k \<le> 53" by (rule power_le_imp_le_exp[OF _ k2]) simp
  then have k74: "- 1074 \<le> - int k" by simp
  have y_fix: "round_double y = y"
  proof (cases "m = 0")
    case True
    then show ?thesis by (simp add: y_def round_double_def)
  next
    case False
    then have "0 < m" using m0 by simp
    then show ?thesis unfolding y_def using m53 k74 by (rule round_double_dyadic)
  qed
  have pk: "(2::rat) powi (- int k) = 1 / 2 ^ k"
    by (simp add: power_int_minus_divide)
  have y_eq: "y = of_int (q + 1) - 1 / 2 ^ k"
    by (simp add: y_def m_def pk field_simps)
  have "(of_int b :: rat) \<le> of_int (2 ^ k)" using k(1) by (simp only: of_int_le_iff)
  then have bk: "(of_int b :: rat) \<le> 2 ^ k" by simp
  have "(1::rat) / 2 ^ k \<le> 1 / of_int b" using bk b0 by (simp add: frac_le)
  moreover have "of_int r / (of_int b :: rat) \<le> 1 - 1 / of_int b"
  proof -
    have "(of_int r :: rat) \<le> of_int (b - 1)" using rb by (simp only: of_int_le_iff)
    then have "of_int r / (of_int b :: rat) \<le> of_int (b - 1) / of_int b"
      using b0 by (simp add: divide_right_mono)
    also have "\<dots> = 1 - 1 / of_int b" using b0 by (simp add: field_simps)
    finally show ?thesis .
  qed
  ultimately have xy: "x \<le> y" by (simp add: x_eq y_eq)
  have "round_double x \<le> round_double y" using x0 xy by (rule round_double_mono)
  then have "round_double x \<le> y" by (simp only: y_fix)
  moreover have "y < of_int (q + 1)" by (simp add: y_eq)
  ultimately have "round_double x < of_int (q + 1)" by simp
  then have "\<lfloor>round_double x\<rfloor> < q + 1" by (simp only: floor_less_iff)
  then show ?thesis using lo by (simp add: x_def q_def)
qed

lemma ebind_Inl [simp]: "ebind (Inl e) f = Inl e"
  by (simp add: ebind_def)

lemma ebind_Inr [simp]: "ebind (Inr v) f = f v"
  by (simp add: ebind_def)

lemma ebind_eq_Inr: "ebind m f = Inr y \<longleftrightarrow> (\<exists>v. m = Inr v \<and> f v = Inr y)"
  by (cases m) simp_all

lemma big_bound: "(2::rat) ^ 53 < 2 ^ 1024"
  by (rule power_strict_increasing) simp_all

lemma float_result_small:
  assumes "0 \<le> x" "x \<le> of_int N" "N < 2 ^ 53"
  shows "float_result x = Finite (round_double x)"
proof -
  have "round_double x \<le> of_int N" using assms by (rule round_le_int)
  moreover have "(of_int N :: rat) < of_int (2 ^ 53)" using assms(3) by (simp only: of_int_less_iff)
  ultimately have "round_double x < 2 ^ 53" by simp
  then have hi: "round_double x < 2 ^ 1024" using big_bound by (rule less_trans)
  have lo: "0 \<le> round_double x" using assms(1) by (rule round_double_nonneg)
  have "- ((2::rat) ^ 1024) < 0" by simp
  then have "- ((2::rat) ^ 1024) < round_double x" using lo by (rule less_le_trans)
  then show ?thesis using hi by (simp add: float_result_def Let_def)
qed

lemma float_result_Finite:
  assumes "float_result x = Finite r"
  shows "r = round_double x"
  using assms by (simp add: float_result_def Let_def split: if_splits)

lemma float_of_int_exact:
  assumes "0 \<le> n" "n < 2 ^ 53"
  shows "float_of_int n = Inr (of_int n)"
proof -
  have "(0::rat) \<le> of_int n" using assms(1) by simp
  moreover have "(of_int n :: rat) \<le> of_int n" by simp
  ultimately have "float_result (of_int n) = Finite (round_double (of_int n))"
    using assms(2) by (rule float_result_small)
  then show ?thesis using assms by (simp add: float_of_int_def round_double_of_int)
qed

lemma int_truediv_Inr:
  assumes "int_truediv a b = Inr r"
  shows "b \<noteq> 0" and "r = round_double (of_int a / of_int b)"
proof -
  show b: "b \<noteq> 0" using assms by (auto simp add: int_truediv_def)
  obtain v where "float_result (of_int a / of_int b) = Finite v" "v = r"
    using assms b by (auto simp add: int_truediv_def split: pyfloat.splits)
  then show "r = round_double (of_int a / of_int b)" using float_result_Finite by blast
qed

lemma int_truediv_small:
  assumes "0 \<le> a" "0 < b" "a \<le> N * b" "N < 2 ^ 53"
  shows "int_truediv a b = Inr (round_double (of_int a / of_int b))"
proof -
  have b0: "(0::rat) < of_int b" using assms(2) by simp
  have x0: "(0::rat) \<le> of_int a / of_int b" using assms(1) b0 by simp
  have "(of_int a :: rat) \<le> of_int (N * b)" using assms(3) by (simp only: of_int_le_iff)
  then have "(of_int a :: rat) / of_int b \<le> of_int N" using b0 by (simp add: pos_divide_le_eq)
  with x0 have "float_result (of_int a / of_int b) = Finite (round_double (of_int a / of_int b))"
    using assms(4) by (rule float_result_small)
  then show ?thesis using assms(2) by (simp add: int_truediv_def)
qed

lemma py_int_nonneg:
  assumes "0 \<le> x"
  shows "py_int (Finite (round_double x)) = Inr \<lfloor>round_double x\<rfloor>"
  using round_double_nonneg[OF assms] by (simp add: py_int_def)

lemma py_int_float_result:
  assumes "py_int (float_result x) = Inr k" "0 \<le> x"
  shows "k = \<lfloor>round_double x\<rfloor>"
proof -
  obtain r where r: "float_result x = Finite r"
    using assms(1) by (cases "float_result x") (simp_all add: py_int_def)
  then have "r = round_double x" by (rule float_result_Finite)
  then show ?thesis using assms r py_int_nonneg[OF assms(2)] by simp
qed

lemma py_int_float_result_small:
  assumes "0 \<le> x" "x \<le> of_int N" "N < 2 ^ 53"
  shows "py_int (float_result x) = Inr \<lfloor>round_double x\<rfloor>"
  using float_result_small[OF assms] py_int_nonneg[OF assms(1)] by simp

text \<open>\<^verbatim>\<open>int(n * a)\<close> and \<^verbatim>\<open>int(n / a)\<close> for an extent \<open>n\<close> and a float \<open>a \<ge> 0\<close>.\<close>

lemma int_mul_unfold:
  assumes "0 \<le> n" "n < 2 ^ 53"
  shows "ebind (int_mul_float n a) py_int = py_int (float_result (of_int n * a))"
  using float_of_int_exact[OF assms] by (simp add: int_mul_float_def)

lemma int_div_unfold:
  assumes "0 \<le> n" "n < 2 ^ 53"
  shows "ebind (int_div_float n a) py_int =
    (if a = 0 then Inl ZeroDivisionError else py_int (float_result (of_int n / a)))"
  using float_of_int_exact[OF assms] by (simp add: int_div_float_def)

lemma int_mul_Inr:
  assumes "ebind (int_mul_float n a) py_int = Inr k" "0 \<le> n" "n < 2 ^ 53" "0 \<le> a"
  shows "k = \<lfloor>round_double (of_int n * a)\<rfloor>"
proof -
  have "py_int (float_result (of_int n * a)) = Inr k"
    using assms(1) int_mul_unfold[OF assms(2,3)] by simp
  moreover have "0 \<le> of_int n * a" using assms(2,4) by simp
  ultimately show ?thesis by (rule py_int_float_result)
qed

lemma int_div_Inr:
  assumes "ebind (int_div_float n a) py_int = Inr k" "0 \<le> n" "n < 2 ^ 53" "0 \<le> a"
  shows "0 < a" and "k = \<lfloor>round_double (of_int n / a)\<rfloor>"
proof -
  have u: "(if a = 0 then Inl ZeroDivisionError else py_int (float_result (of_int n / a))) = Inr k"
    using assms(1) int_div_unfold[OF assms(2,3)] by simp
  then have "a \<noteq> 0" by (auto split: if_splits)
  then show a0: "0 < a" using assms(4) by simp
  have "py_int (float_result (of_int n / a)) = Inr k" using u a0 by simp
  moreover have "0 \<le> of_int n / a" using assms(2) a0 by simp
  ultimately show "k = \<lfloor>round_double (of_int n / a)\<rfloor>" by (rule py_int_float_result)
qed

lemma round_gt_fixed:
  assumes "0 \<le> c" "round_double c < round_double t" "0 \<le> t"
  shows "c \<le> round_double t"
proof (rule ccontr)
  assume "\<not> c \<le> round_double t"
  then have "round_double t \<le> c" by simp
  with round_double_nonneg[OF assms(3)]
  have "round_double (round_double t) \<le> round_double c" by (rule round_double_mono)
  then have "round_double t \<le> round_double c" using assms(3) by (simp only: round_double_idem)
  then show False using assms(2) by simp
qed

text \<open>The two truncated products and quotients of the window computations.\<close>

lemma trunc_mul_le:
  assumes "0 \<le> a" "0 \<le> H" "of_int H * a \<le> of_int W" "W < 2 ^ 53"
  shows "0 \<le> \<lfloor>round_double (of_int H * a)\<rfloor>" and "\<lfloor>round_double (of_int H * a)\<rfloor> \<le> W"
proof -
  have x0: "0 \<le> of_int H * a" using assms(1,2) by simp
  show "0 \<le> \<lfloor>round_double (of_int H * a)\<rfloor>" using x0 by (rule floor_round_nonneg)
  show "\<lfloor>round_double (of_int H * a)\<rfloor> \<le> W" using x0 assms(3,4) by (rule floor_round_le)
qed

lemma trunc_div_le:
  assumes "0 < a" "0 \<le> W" "of_int W \<le> of_int H * a" "H < 2 ^ 53"
  shows "0 \<le> \<lfloor>round_double (of_int W / a)\<rfloor>" and "\<lfloor>round_double (of_int W / a)\<rfloor> \<le> H"
proof -
  have x0: "0 \<le> of_int W / a" using assms(1,2) by simp
  have "of_int W / a \<le> of_int H" using assms(1,3) by (simp add: pos_divide_le_eq)
  show "0 \<le> \<lfloor>round_double (of_int W / a)\<rfloor>" using x0 by (rule floor_round_nonneg)
  show "\<lfloor>round_double (of_int W / a)\<rfloor> \<le> H"
    using x0 \<open>of_int W / a \<le> of_int H\<close> assms(4) by (rule floor_round_le)
qed

lemma landscape_window_bounds:
  assumes "landscape_window (W, H) a = Inr (cw, ch)" "dimension W" "dimension H" "0 \<le> a"
  shows "0 \<le> cw \<and> cw \<le> W \<and> 0 \<le> ch \<and> ch \<le> H"
proof -
  have W: "0 \<le> W" "W < 2 ^ 53" and H: "0 \<le> H" "H < 2 ^ 53"
    using assms(2,3) by (simp_all add: dimension_def)
  obtain k where k: "ebind (int_div_float W a) py_int = Inr k"
    and rest: "(if k > H
        then ebind (ebind (int_mul_float H a) py_int) (\<lambda>crop_width. Inr (crop_width, H))
        else Inr (W, k)) = Inr (cw, ch)"
    using assms(1) by (auto simp add: landscape_window_def ebind_eq_Inr)
  have a0: "0 < a" and k_eq: "k = \<lfloor>round_double (of_int W / a)\<rfloor>"
    using int_div_Inr[OF k W assms(4)] by simp_all
  have k0: "0 \<le> k" unfolding k_eq using a0 W(1) by (intro floor_round_nonneg) simp
  show ?thesis
  proof (cases "k > H")
    case True
    then have "ebind (ebind (int_mul_float H a) py_int) (\<lambda>crop_width. Inr (crop_width, H))
        = Inr (cw, ch)" using rest by simp
    then obtain c where c: "ebind (int_mul_float H a) py_int = Inr c" and "cw = c" "ch = H"
      by (cases "ebind (int_mul_float H a) py_int") simp_all
    have c_eq: "c = \<lfloor>round_double (of_int H * a)\<rfloor>" using int_mul_Inr[OF c H assms(4)] .
    have "0 \<le> of_int W / a" using a0 W(1) by simp
    then have "of_int H < of_int W / a" using H(2) True unfolding k_eq by (rule floor_round_gt)
    then have le: "of_int H * a \<le> of_int W" using a0 by (simp add: pos_less_divide_eq)
    have "0 \<le> c" unfolding c_eq using assms(4) H(1) le W(2) by (rule trunc_mul_le(1))
    moreover have "c \<le> W" unfolding c_eq using assms(4) H(1) le W(2) by (rule trunc_mul_le(2))
    ultimately show ?thesis using \<open>cw = c\<close> \<open>ch = H\<close> H(1) by simp
  next
    case False
    then have "cw = W" "ch = k" using rest by simp_all
    then show ?thesis using False k0 W(1) by simp
  qed
qed

lemma portrait_window_bounds:
  assumes "portrait_window (W, H) a = Inr (cw, ch)" "dimension W" "dimension H" "0 \<le> a"
  shows "0 \<le> cw \<and> cw \<le> W \<and> 0 \<le> ch \<and> ch \<le> H"
proof -
  have W: "0 \<le> W" "W < 2 ^ 53" and H: "0 \<le> H" "H < 2 ^ 53"
    using assms(2,3) by (simp_all add: dimension_def)
  obtain c where c: "ebind (int_mul_float H a) py_int = Inr c"
    and rest: "(if c > W
        then ebind (ebind (int_div_float W a) py_int) (\<lambda>crop_height. Inr (W, crop_height))
        else Inr (c, H)) = Inr (cw, ch)"
    using assms(1) by (auto simp add: portrait_window_def ebind_eq_Inr)
  have c_eq: "c = \<lfloor>round_double (of_int H * a)\<rfloor>" using int_mul_Inr[OF c H assms(4)] .
  have x0: "0 \<le> of_int H * a" using H(1) assms(4) by simp
  have c0: "0 \<le> c" unfolding c_eq using x0 by (rule floor_round_nonneg)
  show ?thesis
  proof (cases "c > W")
    case True
    then have "ebind (ebind (int_div_float W a) py_int) (\<lambda>crop_height. Inr (W, crop_height))
        = Inr (cw, ch)" using rest by simp
    then obtain k where k: "ebind (int_div_float W a) py_int = Inr k" and "cw = W" "ch = k"
      by (cases "ebind (int_div_float W a) py_int") simp_all
    have a0: "0 < a" and k_eq: "k = \<lfloor>round_double (of_int W / a)\<rfloor>"
      using int_div_Inr[OF k W assms(4)] by simp_all
    have "of_int W < of_int H * a" using x0 W(2) True unfolding c_eq by (rule floor_round_gt)
    then have le: "of_int W \<le> of_int H * a" by simp
    have "0 \<le> k" unfolding k_eq using a0 W(1) le H(2) by (rule trunc_div_le(1))
    moreover have "k \<le> H" unfolding k_eq using a0 W(1) le H(2) by (rule trunc_div_le(2))
    ultimately show ?thesis using \<open>cw = W\<close> \<open>ch = k\<close> W(1) by simp
  next
    case False
    then have "cw = c" "ch = H" using rest by simp_all
    then show ?thesis using False c0 H(1) by simp
  qed
qed

lemma truediv_pos:
  assumes "int_truediv a b = Inr r" "0 \<le> a" "0 < b"
  shows "0 \<le> r" and "r = round_double (of_int a / of_int b)"
proof -
  show r: "r = round_double (of_int a / of_int b)" using assms(1) by (rule int_truediv_Inr)
  have "(0::rat) \<le> of_int a / of_int b" using assms(2,3) by simp
  then show "0 \<le> r" unfolding r by (rule round_double_nonneg)
qed

subsection \<open>The calls of the library\<close>

lemma image_crop_Inr:
  "image_crop lib img (l, u, r, lo) = Inr c
    \<longleftrightarrow> crop_raises lib img (l, u, r, lo) = None \<and> c = Crop l u r lo"
  by (auto simp add: image_crop_def split: option.splits)

lemma image_resize_Inr:
  "image_resize lib img c s = Inr f
    \<longleftrightarrow> (\<exists>s'. resize_returns lib img c s = Inr s' \<and> f = \<lparr>cropping = c, dims = s'\<rparr>)"
  by (auto simp add: image_resize_def split: sum.splits)

lemma image_resize_frame:
  assumes "image_resize lib img c s = Inr f"
  shows "cropping f = c" and "resize_returns lib img c s = Inr (dims f)"
  using assms by (auto simp add: image_resize_Inr)

lemma crop_resize_frame:
  assumes "ebind (image_crop lib img (l, u, r, lo)) (\<lambda>c. image_resize lib img c s) = Inr f"
  shows "cropping f = Crop l u r lo"
    and "resize_returns lib img (Crop l u r lo) s = Inr (dims f)"
    and "crop_raises lib img (l, u, r, lo) = None"
proof -
  obtain c where c: "image_crop lib img (l, u, r, lo) = Inr c"
    and f: "image_resize lib img c s = Inr f"
    using assms by (cases "image_crop lib img (l, u, r, lo)") simp_all
  have c': "crop_raises lib img (l, u, r, lo) = None" "c = Crop l u r lo"
    using c by (simp_all add: image_crop_Inr)
  show "cropping f = Crop l u r lo" using image_resize_frame(1)[OF f] c'(2) by simp
  show "resize_returns lib img (Crop l u r lo) s = Inr (dims f)"
    using image_resize_frame(2)[OF f] c'(2) by simp
  show "crop_raises lib img (l, u, r, lo) = None" using c'(1) .
qed

lemma crop_and_resize_cases:
  assumes "crop_and_resize_to_ad_size lib (W, H) tw th = Inr f"
  obtains ta ca cropped where "int_truediv tw th = Inr ta" "int_truediv W H = Inr ca"
    "(if ca > ta then
        ebind (ebind (int_mul_float H ta) py_int) (\<lambda>new_width.
          let left = (W - new_width) div 2
          in image_crop lib (W, H) (left, 0, left + new_width, H))
      else if ca < ta then
        ebind (ebind (int_div_float W ta) py_int) (\<lambda>new_height.
          let top = (H - new_height) div 2
          in image_crop lib (W, H) (0, top, W, top + new_height))
      else Inr Uncropped) = Inr cropped"
    "image_resize lib (W, H) cropped (tw, th) = Inr f"
proof -
  obtain ta where ta: "int_truediv tw th = Inr ta"
    using assms by (cases "int_truediv tw th") (simp_all add: crop_and_resize_to_ad_size_def)
  obtain ca where ca: "int_truediv W H = Inr ca"
    using assms ta
    by (cases "int_truediv W H") (simp_all add: crop_and_resize_to_ad_size_def)
  define X where "X = (if ca > ta then
        ebind (ebind (int_mul_float H ta) py_int) (\<lambda>new_width.
          let left = (W - new_width) div 2
          in image_crop lib (W, H) (left, 0, left + new_width, H))
      else if ca < ta then
        ebind (ebind (int_div_float W ta) py_int) (\<lambda>new_height.
          let top = (H - new_height) div 2
          in image_crop lib (W, H) (0, top, W, top + new_height))
      else Inr Uncropped)"
  have r: "ebind X (\<lambda>cropped. image_resize lib (W, H) cropped (tw, th)) = Inr f"
    using assms ta ca unfolding X_def by (simp add: crop_and_resize_to_ad_size_def)
  then obtain cropped where c: "X = Inr cropped"
    and f: "image_resize lib (W, H) cropped (tw, th) = Inr f"
    by (cases X) simp_all
  show thesis using ta ca c[unfolded X_def] f by (rule that)
qed

text \<open>The frame returned is the answer of the library to a resize to the target.\<close>

lemma crop_answer:
  assumes "crop_and_resize_to_ad_size lib (W, H) tw th = Inr f"
  shows "resize_returns lib (W, H) (cropping f) (tw, th) = Inr (dims f)"
  using assms
proof (cases rule: crop_and_resize_cases)
  case (1 ta ca cropped)
  show ?thesis using image_resize_frame[OF 1(4)] by simp
qed

text \<open>The box of the centre crop, from the outcome of the comparison of the ratios.\<close>

lemma wide_crop_bounds:
  assumes "dimension W" "dimension H" "0 < tw" "0 < th"
    "int_truediv tw th = Inr ta" "int_truediv W H = Inr ca" "ca > ta"
    "ebind (int_mul_float H ta) py_int = Inr nw"
  shows "0 \<le> (W - nw) div 2" and "(W - nw) div 2 + nw \<le> W"
proof -
  have W: "0 \<le> W" "W < 2 ^ 53" "0 < W" and H: "0 \<le> H" "H < 2 ^ 53" "0 < H"
    using assms(1,2) by (simp_all add: dimension_def)
  define t where "t = (of_int tw :: rat) / of_int th"
  define c where "c = (of_int W :: rat) / of_int H"
  have t0: "0 \<le> t" using assms(3,4) by (simp add: t_def)
  have c0: "0 \<le> c" using W(1) H(3) by (simp add: c_def)
  have ta_eq: "ta = round_double t" and ta0: "0 \<le> ta"
    using truediv_pos[OF assms(5)] assms(3,4) by (simp_all add: t_def)
  have ca_eq: "ca = round_double c" using truediv_pos[OF assms(6) W(1) H(3)] by (simp add: c_def)
  have Hr: "(0::rat) < of_int H" using H(3) by simp
  have nw_eq: "nw = \<lfloor>round_double (of_int H * ta)\<rfloor>" using int_mul_Inr[OF assms(8) H(1,2) ta0] .
  have "round_double t \<le> c" using t0 assms(7) c0 unfolding ta_eq ca_eq by (intro round_lt_fixed) simp_all
  then have "ta \<le> of_int W / of_int H" by (simp add: ta_eq c_def)
  then have le: "of_int H * ta \<le> of_int W" using Hr by (simp add: pos_le_divide_eq mult.commute)
  have "0 \<le> nw" unfolding nw_eq using ta0 H(1) le W(2) by (rule trunc_mul_le(1))
  moreover have "nw \<le> W" unfolding nw_eq using ta0 H(1) le W(2) by (rule trunc_mul_le(2))
  ultimately show "0 \<le> (W - nw) div 2" and "(W - nw) div 2 + nw \<le> W" by linarith+
qed

lemma tall_crop_bounds:
  assumes "dimension W" "dimension H" "0 < tw" "0 < th"
    "int_truediv tw th = Inr ta" "int_truediv W H = Inr ca" "ca < ta"
    "ebind (int_div_float W ta) py_int = Inr nh"
  shows "0 \<le> (H - nh) div 2" and "(H - nh) div 2 + nh \<le> H"
proof -
  have W: "0 \<le> W" "W < 2 ^ 53" "0 < W" and H: "0 \<le> H" "H < 2 ^ 53" "0 < H"
    using assms(1,2) by (simp_all add: dimension_def)
  define t where "t = (of_int tw :: rat) / of_int th"
  define c where "c = (of_int W :: rat) / of_int H"
  have t0: "0 \<le> t" using assms(3,4) by (simp add: t_def)
  have c0: "0 \<le> c" using W(1) H(3) by (simp add: c_def)
  have ta_eq: "ta = round_double t" and ta0: "0 \<le> ta"
    using truediv_pos[OF assms(5)] assms(3,4) by (simp_all add: t_def)
  have ca_eq: "ca = round_double c" using truediv_pos[OF assms(6) W(1) H(3)] by (simp add: c_def)
  have Hr: "(0::rat) < of_int H" using H(3) by simp
  have a0: "0 < ta" and nh_eq: "nh = \<lfloor>round_double (of_int W / ta)\<rfloor>"
    using int_div_Inr[OF assms(8) W(1,2) ta0] by simp_all
  have "c \<le> round_double t" using c0 assms(7) t0 unfolding ta_eq ca_eq by (intro round_gt_fixed) simp_all
  then have "of_int W / of_int H \<le> ta" by (simp add: ta_eq c_def)
  then have le: "of_int W \<le> of_int H * ta" using Hr by (simp add: pos_divide_le_eq mult.commute)
  have "0 \<le> nh" unfolding nh_eq using a0 W(1) le H(2) by (rule trunc_div_le(1))
  moreover have "nh \<le> H" unfolding nh_eq using a0 W(1) le H(2) by (rule trunc_div_le(2))
  ultimately show "0 \<le> (H - nh) div 2" and "(H - nh) div 2 + nh \<le> H" by linarith+
qed

lemma crop_and_resize_frame:
  assumes "crop_and_resize_to_ad_size lib (W, H) tw th = Inr f"
    "dimension W" "dimension H" "0 < tw" "0 < th"
  shows "in_bounds (W, H) f"
  using assms(1)
proof (cases rule: crop_and_resize_cases)
  case (1 ta ca cropped)
  note ta = 1(1) and ca = 1(2) and rest = 1(3)
  have cf: "cropping f = cropped" using image_resize_frame(1)[OF 1(4)] .
  consider (wide) "ca > ta" | (tall) "\<not> ca > ta" "ca < ta" | (same) "\<not> ca > ta" "\<not> ca < ta"
    by blast
  then show ?thesis
  proof cases
    case wide
    then have "ebind (ebind (int_mul_float H ta) py_int) (\<lambda>new_width.
          let left = (W - new_width) div 2
          in image_crop lib (W, H) (left, 0, left + new_width, H)) = Inr cropped"
      using rest by simp
    then obtain nw where nw: "ebind (int_mul_float H ta) py_int = Inr nw"
      and f: "image_crop lib (W, H) ((W - nw) div 2, 0, (W - nw) div 2 + nw, H) = Inr cropped"
      by (cases "ebind (int_mul_float H ta) py_int") (simp_all add: Let_def)
    have cr: "cropped = Crop ((W - nw) div 2) 0 ((W - nw) div 2 + nw) H"
      using f by (simp add: image_crop_Inr)
    show ?thesis
      using wide_crop_bounds[OF assms(2,3,4,5) ta ca wide nw] by (simp add: cf cr in_bounds_def)
  next
    case tall
    then have "ebind (ebind (int_div_float W ta) py_int) (\<lambda>new_height.
          let top = (H - new_height) div 2
          in image_crop lib (W, H) (0, top, W, top + new_height)) = Inr cropped"
      using rest by simp
    then obtain nh where nh: "ebind (int_div_float W ta) py_int = Inr nh"
      and f: "image_crop lib (W, H) (0, (H - nh) div 2, W, (H - nh) div 2 + nh) = Inr cropped"
      by (cases "ebind (int_div_float W ta) py_int") (simp_all add: Let_def)
    have cr: "cropped = Crop 0 ((H - nh) div 2) W ((H - nh) div 2 + nh)"
      using f by (simp add: image_crop_Inr)
    show ?thesis
      using tall_crop_bounds[OF assms(2,3,4,5) ta ca tall(2) nh] by (simp add: cf cr in_bounds_def)
  next
    case same
    then have "cropped = Uncropped" using rest by simp
    then show ?thesis by (simp add: cf in_bounds_def)
  qed
qed

subsection \<open>The offset of a frame\<close>

lemma pan_offset_single: "\<not> 1 < n \<Longrightarrow> pan_offset m n i = Inr 0"
  by (simp add: pan_offset_def)

lemma pan_offset_Inr:
  assumes "pan_offset m n i = Inr k" "1 < n" "0 \<le> m" "0 \<le> i"
  shows "k = \<lfloor>round_double (of_int (m * i) / of_int (n - 1))\<rfloor>"
proof -
  have "ebind (int_truediv (m * i) (n - 1)) (\<lambda>q. py_int (Finite q)) = Inr k"
    using assms(1,2) by (simp add: pan_offset_def)
  then obtain q where q: "int_truediv (m * i) (n - 1) = Inr q" and k: "py_int (Finite q) = Inr k"
    by (cases "int_truediv (m * i) (n - 1)") simp_all
  have "0 \<le> m * i" using assms(3,4) by simp
  moreover have "0 < n - 1" using assms(2) by simp
  ultimately have "0 \<le> q" "q = round_double (of_int (m * i) / of_int (n - 1))"
    using truediv_pos[OF q] by simp_all
  then show ?thesis using k by (simp add: py_int_def)
qed

lemma offset_quotient_mono:
  assumes "0 \<le> m" "0 \<le> i" "i \<le> j" "1 < n"
  shows "0 \<le> (of_int (m * i) :: rat) / of_int (n - 1)"
    and "(of_int (m * i) :: rat) / of_int (n - 1) \<le> of_int (m * j) / of_int (n - 1)"
proof -
  have d: "(0::rat) \<le> of_int (n - 1)" using assms(4) by simp
  have "0 \<le> m * i" using assms(1,2) by simp
  then have "(0::rat) \<le> of_int (m * i)" by (simp only: of_int_0_le_iff)
  then show "0 \<le> (of_int (m * i) :: rat) / of_int (n - 1)" using d by (rule divide_nonneg_nonneg)
  have "m * i \<le> m * j" using assms(3,1) by (rule mult_left_mono)
  then have "(of_int (m * i) :: rat) \<le> of_int (m * j)" by (simp only: of_int_le_iff)
  then show "(of_int (m * i) :: rat) / of_int (n - 1) \<le> of_int (m * j) / of_int (n - 1)"
    using d by (rule divide_right_mono)
qed

lemma pan_offset_mono:
  assumes "pan_offset m n i = Inr a" "pan_offset m n j = Inr b" "0 \<le> m" "0 \<le> i" "i \<le> j"
  shows "a \<le> b"
proof (cases "1 < n")
  case True
  have j: "0 \<le> j" using assms(4,5) by simp
  have a: "a = \<lfloor>round_double (of_int (m * i) / of_int (n - 1))\<rfloor>"
    using assms(1) True assms(3,4) by (rule pan_offset_Inr)
  have b: "b = \<lfloor>round_double (of_int (m * j) / of_int (n - 1))\<rfloor>"
    using assms(2) True assms(3) j by (rule pan_offset_Inr)
  have "round_double (of_int (m * i) / of_int (n - 1))
      \<le> round_double (of_int (m * j) / of_int (n - 1))"
    using offset_quotient_mono[OF assms(3,4,5) True] by (rule round_double_mono)
  then show ?thesis unfolding a b by (rule floor_mono)
next
  case False
  then show ?thesis using assms(1,2) by (simp add: pan_offset_def)
qed

lemma pan_offset_eval:
  assumes "1 < n" "0 \<le> m" "m < 2 ^ 53" "0 \<le> i" "i \<le> n - 1"
  shows "pan_offset m n i = Inr \<lfloor>round_double (of_int (m * i) / of_int (n - 1))\<rfloor>"
proof -
  have "0 \<le> m * i" using assms(2,4) by simp
  moreover have "0 < n - 1" using assms(1) by simp
  moreover have "m * i \<le> m * (n - 1)" using assms(5,2) by (rule mult_left_mono)
  ultimately have "int_truediv (m * i) (n - 1)
      = Inr (round_double (of_int (m * i) / of_int (n - 1)))"
    using assms(3) by (rule int_truediv_small)
  moreover have "py_int (Finite (round_double (of_int (m * i) / of_int (n - 1))))
      = Inr \<lfloor>round_double (of_int (m * i) / of_int (n - 1))\<rfloor>"
    using offset_quotient_mono(1)[OF assms(2,4) order_refl assms(1)] by (rule py_int_nonneg)
  ultimately show ?thesis using assms(1) by (simp add: pan_offset_def)
qed

lemma pan_offset_range:
  assumes "pan_offset m n i = Inr k" "0 \<le> m" "m < 2 ^ 53" "0 \<le> i" "i \<le> n - 1"
  shows "0 \<le> k" and "k \<le> m"
proof -
  have "0 \<le> k \<and> k \<le> m"
  proof (cases "1 < n")
    case True
    define x where "x = (of_int (m * i) :: rat) / of_int (n - 1)"
    have k: "k = \<lfloor>round_double x\<rfloor>"
      using assms(1) True assms(2,4) unfolding x_def by (rule pan_offset_Inr)
    have x0: "0 \<le> x" unfolding x_def
      using offset_quotient_mono(1)[OF assms(2,4) order_refl True] .
    have d: "(0::rat) < of_int (n - 1)" using True by simp
    have "m * i \<le> m * (n - 1)" using assms(5,2) by (rule mult_left_mono)
    then have "(of_int (m * i) :: rat) \<le> of_int (m * (n - 1))" by (simp only: of_int_le_iff)
    then have "(of_int (m * i) :: rat) \<le> of_int m * of_int (n - 1)" by simp
    then have xm: "x \<le> of_int m" unfolding x_def using d by (simp only: pos_divide_le_eq)
    have "0 \<le> \<lfloor>round_double x\<rfloor>" using x0 by (rule floor_round_nonneg)
    moreover have "\<lfloor>round_double x\<rfloor> \<le> m" using x0 xm assms(3) by (rule floor_round_le)
    ultimately show ?thesis by (simp add: k)
  next
    case False
    then show ?thesis using assms(1,2) by (simp add: pan_offset_def)
  qed
  then show "0 \<le> k" and "k \<le> m" by simp_all
qed

lemma round_double_zero: "round_double 0 = 0"
  by (simp add: round_double_def)

lemma pan_offset_first: "pan_offset m n 0 = Inr 0"
  by (simp add: pan_offset_def int_truediv_def float_result_def round_double_zero py_int_def)

lemma pan_offset_last:
  assumes "1 < n" "0 \<le> m" "m < 2 ^ 53"
  shows "pan_offset m n (n - 1) = Inr m"
proof -
  have "(of_int (m * (n - 1)) :: rat) / of_int (n - 1) = of_int m" using assms(1) by simp
  moreover have "0 \<le> n - 1" using assms(1) by simp
  ultimately have "pan_offset m n (n - 1) = Inr \<lfloor>round_double (of_int m)\<rfloor>"
    using pan_offset_eval[OF assms \<open>0 \<le> n - 1\<close> order_refl] by simp
  then show ?thesis using assms(2,3) by (simp add: round_double_of_int)
qed

lemma pan_offset_exact:
  assumes "1 < n" "0 \<le> m" "0 \<le> i" "i \<le> n - 1" "(m + 1) * (n - 1) \<le> 2 ^ 52"
  shows "pan_offset m n i = Inr ((m * i) div (n - 1))"
proof -
  have "(m + 1) * 1 \<le> (m + 1) * (n - 1)" using assms(1,2) by (intro mult_left_mono) simp_all
  then have m: "m < 2 ^ 53" using assms(5) by simp
  have "m * i \<le> m * (n - 1)" using assms(4,2) by (rule mult_left_mono)
  then have "m * i + (n - 1) \<le> (m + 1) * (n - 1)" by (simp add: algebra_simps)
  then have s: "m * i + (n - 1) \<le> 2 ^ 52" using assms(5) by (rule order_trans)
  have "0 \<le> m * i" using assms(2,3) by simp
  moreover have "0 < n - 1" using assms(1) by simp
  ultimately have "\<lfloor>round_double (of_int (m * i) / of_int (n - 1))\<rfloor> = (m * i) div (n - 1)"
    using s by (rule floor_round_quotient)
  then show ?thesis using pan_offset_eval[OF assms(1,2) m assms(3,4)] by simp
qed

subsection \<open>The loop\<close>

lemma collect_Inr: "collect f xs = Inr ys \<longleftrightarrow> list_all2 (\<lambda>x y. f x = Inr y) xs ys"
proof (induction xs arbitrary: ys)
  case Nil
  then show ?case by auto
next
  case (Cons x xs)
  show ?case
  proof (cases "f x")
    case (Inl e)
    then show ?thesis by (simp add: list_all2_Cons1)
  next
    case y: (Inr y)
    show ?thesis
    proof (cases "collect f xs")
      case (Inl e)
      then have "\<not> list_all2 (\<lambda>x y. f x = Inr y) xs zs" for zs
        using Cons.IH[of zs] by simp
      then show ?thesis using y Inl by (simp add: list_all2_Cons1)
    next
      case r: (Inr zs)
      then have "list_all2 (\<lambda>x y. f x = Inr y) xs zs' \<longleftrightarrow> zs' = zs" for zs'
        using Cons.IH[of zs'] by auto
      then show ?thesis using y r by (auto simp add: list_all2_Cons1)
    qed
  qed
qed

lemma collect_total:
  assumes "\<And>x. x \<in> set xs \<Longrightarrow> \<exists>y. f x = Inr y"
  shows "\<exists>ys. collect f xs = Inr ys"
  using assms
proof (induction xs)
  case Nil
  then show ?case by simp
next
  case (Cons x xs)
  obtain y where y: "f x = Inr y" using Cons.prems[of x] by auto
  obtain ys where ys: "collect f xs = Inr ys" using Cons.IH Cons.prems by auto
  show ?case using y ys by simp
qed

lemma collect_offsets:
  assumes "list_all2 (\<lambda>i t. g i = Inr t) xs ts"
  shows "collect (\<lambda>i. ebind (g i) G) xs = collect G ts"
  using assms by (induction rule: list_all2_induct) (simp_all cong: sum.case_cong)

lemma pan_loop_length:
  assumes "collect (\<lambda>i. ebind (pan_offset m n i) G) [0..n - 1] = Inr fs"
  shows "length fs = nat n"
proof -
  have "list_all2 (\<lambda>i y. ebind (pan_offset m n i) G = Inr y) [0..n - 1] fs"
    using assms by (simp only: collect_Inr)
  then have "length [0..n - 1] = length fs" by (rule list_all2_lengthD)
  then show ?thesis by simp
qed

lemma pan_loop_nth:
  assumes "collect (\<lambda>i. ebind (pan_offset m n i) G) [0..n - 1] = Inr fs" "k < nat n"
  shows "\<exists>t. pan_offset m n (int k) = Inr t \<and> G t = Inr (fs ! k)"
proof -
  have a: "list_all2 (\<lambda>i y. ebind (pan_offset m n i) G = Inr y) [0..n - 1] fs"
    using assms(1) by (simp only: collect_Inr)
  have l: "k < length [0..n - 1]" using assms(2) by simp
  have "[0..n - 1] ! k = 0 + int k" using assms(2) by (intro nth_upto) linarith
  moreover have "ebind (pan_offset m n ([0..n - 1] ! k)) G = Inr (fs ! k)"
    using list_all2_nthD[OF a l] .
  ultimately have "ebind (pan_offset m n (int k)) G = Inr (fs ! k)" by simp
  then show ?thesis by (cases "pan_offset m n (int k)") simp_all
qed

lemma pan_loop_total:
  assumes "0 \<le> m" "m < 2 ^ 53" "\<And>t. \<exists>f. G t = Inr f"
  shows "\<exists>fs. collect (\<lambda>i. ebind (pan_offset m n i) G) [0..n - 1] = Inr fs"
proof (rule collect_total)
  fix x assume "x \<in> set [0..n - 1]"
  then have x: "0 \<le> x" "x \<le> n - 1" by simp_all
  then have "1 < n \<Longrightarrow> pan_offset m n x
      = Inr \<lfloor>round_double (of_int (m * x) / of_int (n - 1))\<rfloor>"
    using assms(1,2) by (intro pan_offset_eval)
  then obtain t where "pan_offset m n x = Inr t"
    using pan_offset_single[of n m x] by (cases "1 < n") simp_all
  then show "\<exists>y. ebind (pan_offset m n x) G = Inr y" using assms(3)[of t] by simp
qed

subsection \<open>The two branches of the pan\<close>

lemma pan_landscape:
  assumes "th < tw" "int_truediv tw th = Inr ta" "landscape_window (W, H) ta = Inr (cw, ch)"
  shows "pan_range (W, H) tw th = Inr (H - ch)"
    and "pan_frames lib (W, H) tw th n =
      (if 0 < H - ch then
         collect (\<lambda>i. ebind (pan_offset (H - ch) n i) (\<lambda>t.
           ebind (image_crop lib (W, H) ((W - cw) div 2, t, (W - cw) div 2 + cw, t + ch))
             (\<lambda>cropped. image_resize lib (W, H) cropped (tw, th)))) [0..n - 1]
       else ebind (crop_and_resize_to_ad_size lib (W, H) tw th) (\<lambda>f. Inr [f]))"
  using assms by (simp_all add: pan_range_def pan_frames_def Let_def)

lemma pan_portrait:
  assumes "\<not> th < tw" "int_truediv tw th = Inr ta" "portrait_window (W, H) ta = Inr (cw, ch)"
  shows "pan_range (W, H) tw th = Inr (W - cw)"
    and "pan_frames lib (W, H) tw th n =
      (if 0 < W - cw then
         collect (\<lambda>i. ebind (pan_offset (W - cw) n i) (\<lambda>t.
           ebind (image_crop lib (W, H) (t, (H - ch) div 2, t + cw, (H - ch) div 2 + ch))
             (\<lambda>cropped. image_resize lib (W, H) cropped (tw, th)))) [0..n - 1]
       else ebind (crop_and_resize_to_ad_size lib (W, H) tw th) (\<lambda>f. Inr [f]))"
  using assms by (simp_all add: pan_range_def pan_frames_def Let_def)

lemma pan_range_cases:
  assumes "pan_range (W, H) tw th = Inr m"
  obtains (vertical) ta cw ch where "th < tw" "int_truediv tw th = Inr ta"
      "landscape_window (W, H) ta = Inr (cw, ch)" "m = H - ch"
  | (horizontal) ta cw ch where "\<not> th < tw" "int_truediv tw th = Inr ta"
      "portrait_window (W, H) ta = Inr (cw, ch)" "m = W - cw"
proof -
  obtain ta where ta: "int_truediv tw th = Inr ta"
    using assms by (cases "int_truediv tw th") (simp_all add: pan_range_def)
  show thesis
  proof (cases "th < tw")
    case True
    then have "ebind (landscape_window (W, H) ta) (\<lambda>(cw, ch). Inr (H - ch)) = Inr m"
      using assms ta by (simp add: pan_range_def)
    then obtain w where w: "landscape_window (W, H) ta = Inr w"
      and r: "(case w of (cw, ch) \<Rightarrow> Inr (H - ch)) = (Inr m :: error + int)"
      by (cases "landscape_window (W, H) ta") simp_all
    obtain cw ch where "w = (cw, ch)" by (cases w)
    then have "landscape_window (W, H) ta = Inr (cw, ch)" "m = H - ch" using w r by auto
    with True ta show thesis by (rule vertical)
  next
    case False
    then have "ebind (portrait_window (W, H) ta) (\<lambda>(cw, ch). Inr (W - cw)) = Inr m"
      using assms ta by (simp add: pan_range_def)
    then obtain w where w: "portrait_window (W, H) ta = Inr w"
      and r: "(case w of (cw, ch) \<Rightarrow> Inr (W - cw)) = (Inr m :: error + int)"
      by (cases "portrait_window (W, H) ta") simp_all
    obtain cw ch where "w = (cw, ch)" by (cases w)
    then have "portrait_window (W, H) ta = Inr (cw, ch)" "m = W - cw" using w r by auto
    with False ta show thesis by (rule horizontal)
  qed
qed

lemma pan_frames_range:
  assumes "pan_frames lib (W, H) tw th n = Inr fs"
  shows "\<exists>m. pan_range (W, H) tw th = Inr m"
proof -
  obtain ta where ta: "int_truediv tw th = Inr ta"
    using assms by (cases "int_truediv tw th") (simp_all add: pan_frames_def)
  show ?thesis
  proof (cases "th < tw")
    case True
    then obtain w where w: "landscape_window (W, H) ta = Inr w"
      using assms ta by (cases "landscape_window (W, H) ta") (simp_all add: pan_frames_def)
    obtain cw ch where "w = (cw, ch)" by (cases w)
    then show ?thesis using pan_landscape(1)[OF True ta] w by simp
  next
    case False
    then obtain w where w: "portrait_window (W, H) ta = Inr w"
      using assms ta by (cases "portrait_window (W, H) ta") (simp_all add: pan_frames_def)
    obtain cw ch where "w = (cw, ch)" by (cases w)
    then show ?thesis using pan_portrait(1)[OF False ta] w by simp
  qed
qed

text \<open>The cap of the window: the pan range is never negative.\<close>

lemma landscape_window_cap:
  assumes "landscape_window (W, H) a = Inr (cw, ch)"
  shows "ch \<le> H"
proof -
  obtain k where k: "ebind (int_div_float W a) py_int = Inr k"
    and rest: "(if k > H
        then ebind (ebind (int_mul_float H a) py_int) (\<lambda>crop_width. Inr (crop_width, H))
        else Inr (W, k)) = Inr (cw, ch)"
    using assms
    by (cases "ebind (int_div_float W a) py_int") (simp_all add: landscape_window_def)
  show ?thesis
  proof (cases "k > H")
    case True
    then have "ebind (ebind (int_mul_float H a) py_int) (\<lambda>crop_width. Inr (crop_width, H))
        = Inr (cw, ch)" using rest by simp
    then have "ch = H" by (cases "ebind (int_mul_float H a) py_int") simp_all
    then show ?thesis by simp
  next
    case False
    then show ?thesis using rest by simp
  qed
qed

lemma portrait_window_cap:
  assumes "portrait_window (W, H) a = Inr (cw, ch)"
  shows "cw \<le> W"
proof -
  obtain c where c: "ebind (int_mul_float H a) py_int = Inr c"
    and rest: "(if c > W
        then ebind (ebind (int_div_float W a) py_int) (\<lambda>crop_height. Inr (W, crop_height))
        else Inr (c, H)) = Inr (cw, ch)"
    using assms
    by (cases "ebind (int_mul_float H a) py_int") (simp_all add: portrait_window_def)
  show ?thesis
  proof (cases "c > W")
    case True
    then have "ebind (ebind (int_div_float W a) py_int) (\<lambda>crop_height. Inr (W, crop_height))
        = Inr (cw, ch)" using rest by simp
    then have "cw = W" by (cases "ebind (int_div_float W a) py_int") simp_all
    then show ?thesis by simp
  next
    case False
    then show ?thesis using rest by simp
  qed
qed

lemma pan_range_ge_0:
  assumes "pan_range (W, H) tw th = Inr m"
  shows "0 \<le> m"
  using assms
proof (cases rule: pan_range_cases)
  case (vertical ta cw ch)
  then show ?thesis using landscape_window_cap[of W H ta cw ch] by simp
next
  case (horizontal ta cw ch)
  then show ?thesis using portrait_window_cap[of W H ta cw ch] by simp
qed

text \<open>Without a pan range the one frame is the centre crop.\<close>

lemma pan_single:
  assumes "pan_range (W, H) tw th = Inr m" "\<not> 0 < m"
  shows "pan_frames lib (W, H) tw th n
    = ebind (crop_and_resize_to_ad_size lib (W, H) tw th) (\<lambda>f. Inr [f])"
  using assms(1)
proof (cases rule: pan_range_cases)
  case (vertical ta cw ch)
  then show ?thesis using pan_landscape(2)[of th tw ta W H cw ch lib n] assms(2) by simp
next
  case (horizontal ta cw ch)
  then show ?thesis using pan_portrait(2)[of th tw ta W H cw ch lib n] assms(2) by simp
qed

text \<open>With a pan range every frame is a window at its offset.\<close>

lemma pan_sequence:
  assumes "pan_range (W, H) tw th = Inr m" "0 < m" "pan_frames lib (W, H) tw th n = Inr fs"
  shows "length fs = nat n"
    and "k < nat n \<Longrightarrow> pan_offset m n (int k) = Inr (pan_position tw th (fs ! k))"
    and "k < nat n \<Longrightarrow> resize_returns lib (W, H) (cropping (fs ! k)) (tw, th) = Inr (dims (fs ! k))"
proof -
  have "length fs = nat n \<and> (k < nat n \<longrightarrow>
      pan_offset m n (int k) = Inr (pan_position tw th (fs ! k))
      \<and> resize_returns lib (W, H) (cropping (fs ! k)) (tw, th) = Inr (dims (fs ! k)))"
    using assms(1)
  proof (cases rule: pan_range_cases)
    case (vertical ta cw ch)
    have c: "collect (\<lambda>i. ebind (pan_offset m n i) (\<lambda>t.
           ebind (image_crop lib (W, H) ((W - cw) div 2, t, (W - cw) div 2 + cw, t + ch))
             (\<lambda>cropped. image_resize lib (W, H) cropped (tw, th)))) [0..n - 1] = Inr fs"
      using pan_landscape(2)[OF vertical(1,2,3), of lib n] assms(2,3) vertical(4) by simp
    have "length fs = nat n" using c by (rule pan_loop_length)
    moreover have "pan_offset m n (int k) = Inr (pan_position tw th (fs ! k))
        \<and> resize_returns lib (W, H) (cropping (fs ! k)) (tw, th) = Inr (dims (fs ! k))"
      if kn: "k < nat n"
    proof -
      obtain t where t: "pan_offset m n (int k) = Inr t"
        and f: "ebind (image_crop lib (W, H) ((W - cw) div 2, t, (W - cw) div 2 + cw, t + ch))
             (\<lambda>cropped. image_resize lib (W, H) cropped (tw, th)) = Inr (fs ! k)"
        using pan_loop_nth[OF c kn] by blast
      show ?thesis using t crop_resize_frame(1,2)[OF f] vertical(1) by (simp add: pan_position_def)
    qed
    ultimately show ?thesis by simp
  next
    case (horizontal ta cw ch)
    have c: "collect (\<lambda>i. ebind (pan_offset m n i) (\<lambda>t.
           ebind (image_crop lib (W, H) (t, (H - ch) div 2, t + cw, (H - ch) div 2 + ch))
             (\<lambda>cropped. image_resize lib (W, H) cropped (tw, th)))) [0..n - 1] = Inr fs"
      using pan_portrait(2)[OF horizontal(1,2,3), of lib n] assms(2,3) horizontal(4) by simp
    have "length fs = nat n" using c by (rule pan_loop_length)
    moreover have "pan_offset m n (int k) = Inr (pan_position tw th (fs ! k))
        \<and> resize_returns lib (W, H) (cropping (fs ! k)) (tw, th) = Inr (dims (fs ! k))"
      if kn: "k < nat n"
    proof -
      obtain t where t: "pan_offset m n (int k) = Inr t"
        and f: "ebind (image_crop lib (W, H) (t, (H - ch) div 2, t + cw, (H - ch) div 2 + ch))
             (\<lambda>cropped. image_resize lib (W, H) cropped (tw, th)) = Inr (fs ! k)"
        using pan_loop_nth[OF c kn] by blast
      show ?thesis using t crop_resize_frame(1,2)[OF f] horizontal(1) by (simp add: pan_position_def)
    qed
    ultimately show ?thesis by simp
  qed
  then show "length fs = nat n"
    and "k < nat n \<Longrightarrow> pan_offset m n (int k) = Inr (pan_position tw th (fs ! k))"
    and "k < nat n \<Longrightarrow> resize_returns lib (W, H) (cropping (fs ! k)) (tw, th) = Inr (dims (fs ! k))"
    by simp_all
qed

lemma pan_range_bounds:
  assumes "pan_range (W, H) tw th = Inr m" "dimension W" "dimension H" "0 < tw" "0 < th"
  shows "0 \<le> m" and "m < 2 ^ 53"
proof -
  have W: "W < 2 ^ 53" and H: "H < 2 ^ 53" using assms(2,3) by (simp_all add: dimension_def)
  have "0 \<le> m \<and> m < 2 ^ 53"
    using assms(1)
  proof (cases rule: pan_range_cases)
    case (vertical ta cw ch)
    have "0 \<le> ta" using vertical(2) assms(4,5) by (intro truediv_pos(1)[of tw th ta]) simp_all
    then have "0 \<le> cw \<and> cw \<le> W \<and> 0 \<le> ch \<and> ch \<le> H"
      using landscape_window_bounds[OF vertical(3) assms(2,3)] by simp
    then show ?thesis using vertical(4) H by simp
  next
    case (horizontal ta cw ch)
    have "0 \<le> ta" using horizontal(2) assms(4,5) by (intro truediv_pos(1)[of tw th ta]) simp_all
    then have "0 \<le> cw \<and> cw \<le> W \<and> 0 \<le> ch \<and> ch \<le> H"
      using portrait_window_bounds[OF horizontal(3) assms(2,3)] by simp
    then show ?thesis using horizontal(4) W by simp
  qed
  then show "0 \<le> m" and "m < 2 ^ 53" by simp_all
qed

lemma pan_sequence_bounds:
  assumes "pan_range (W, H) tw th = Inr m" "0 < m" "pan_frames lib (W, H) tw th n = Inr fs"
    "dimension W" "dimension H" "0 < tw" "0 < th" "k < nat n"
  shows "in_bounds (W, H) (fs ! k)"
proof -
  have m: "0 \<le> m" "m < 2 ^ 53" using pan_range_bounds[OF assms(1,4,5,6,7)] by simp_all
  have k: "0 \<le> int k" "int k \<le> n - 1" using assms(8) by simp_all
  show ?thesis
    using assms(1)
  proof (cases rule: pan_range_cases)
    case (vertical ta cw ch)
    have "0 \<le> ta" using vertical(2) assms(6,7) by (intro truediv_pos(1)[of tw th ta]) simp_all
    then have w: "0 \<le> cw \<and> cw \<le> W \<and> 0 \<le> ch \<and> ch \<le> H"
      using landscape_window_bounds[OF vertical(3) assms(4,5)] by simp
    have c: "collect (\<lambda>i. ebind (pan_offset m n i) (\<lambda>t.
           ebind (image_crop lib (W, H) ((W - cw) div 2, t, (W - cw) div 2 + cw, t + ch))
             (\<lambda>cropped. image_resize lib (W, H) cropped (tw, th)))) [0..n - 1] = Inr fs"
      using pan_landscape(2)[OF vertical(1,2,3), of lib n] assms(2,3) vertical(4) by simp
    obtain t where t: "pan_offset m n (int k) = Inr t"
      and f: "ebind (image_crop lib (W, H) ((W - cw) div 2, t, (W - cw) div 2 + cw, t + ch))
             (\<lambda>cropped. image_resize lib (W, H) cropped (tw, th)) = Inr (fs ! k)"
      using pan_loop_nth[OF c assms(8)] by blast
    have "0 \<le> t" "t \<le> m" using pan_offset_range[OF t m k] by simp_all
    moreover have "0 \<le> (W - cw) div 2" "(W - cw) div 2 + cw \<le> W" using w by linarith+
    ultimately show ?thesis using vertical(4) crop_resize_frame(1)[OF f] by (simp add: in_bounds_def)
  next
    case (horizontal ta cw ch)
    have "0 \<le> ta" using horizontal(2) assms(6,7) by (intro truediv_pos(1)[of tw th ta]) simp_all
    then have w: "0 \<le> cw \<and> cw \<le> W \<and> 0 \<le> ch \<and> ch \<le> H"
      using portrait_window_bounds[OF horizontal(3) assms(4,5)] by simp
    have c: "collect (\<lambda>i. ebind (pan_offset m n i) (\<lambda>t.
           ebind (image_crop lib (W, H) (t, (H - ch) div 2, t + cw, (H - ch) div 2 + ch))
             (\<lambda>cropped. image_resize lib (W, H) cropped (tw, th)))) [0..n - 1] = Inr fs"
      using pan_portrait(2)[OF horizontal(1,2,3), of lib n] assms(2,3) horizontal(4) by simp
    obtain t where t: "pan_offset m n (int k) = Inr t"
      and f: "ebind (image_crop lib (W, H) (t, (H - ch) div 2, t + cw, (H - ch) div 2 + ch))
             (\<lambda>cropped. image_resize lib (W, H) cropped (tw, th)) = Inr (fs ! k)"
      using pan_loop_nth[OF c assms(8)] by blast
    have "0 \<le> t" "t \<le> m" using pan_offset_range[OF t m k] by simp_all
    moreover have "0 \<le> (H - ch) div 2" "(H - ch) div 2 + ch \<le> H" using w by linarith+
    ultimately show ?thesis using horizontal(4) crop_resize_frame(1)[OF f] by (simp add: in_bounds_def)
  qed
qed

subsection \<open>No exception on images and targets of ordinary size\<close>

lemma float_result_bounded:
  assumes "0 \<le> x" "x \<le> 2 ^ 106"
  shows "float_result x = Finite (round_double x)"
proof -
  have "round_double (of_int 1 * 2 powi 106) = of_int 1 * 2 powi 106"
    by (rule round_double_dyadic) simp_all
  then have e: "round_double (2 ^ 106) = 2 ^ 106" by (simp add: power_int_def)
  have "round_double x \<le> round_double (2 ^ 106)" using assms by (rule round_double_mono)
  then have "round_double x \<le> 2 ^ 106" by (simp only: e)
  moreover have "(2::rat) ^ 106 < 2 ^ 1024" by (rule power_strict_increasing) simp_all
  ultimately have hi: "round_double x < 2 ^ 1024" by (rule le_less_trans)
  have lo: "0 \<le> round_double x" using assms(1) by (rule round_double_nonneg)
  have "- ((2::rat) ^ 1024) < 0" by simp
  then have "- ((2::rat) ^ 1024) < round_double x" using lo by (rule less_le_trans)
  then show ?thesis using hi by (simp add: float_result_def Let_def)
qed

lemma py_int_Finite: "\<exists>k. py_int (Finite r) = Inr k"
  by (simp add: py_int_def)

lemma square_bound: "(2::rat) ^ 53 * 2 ^ 53 = 2 ^ 106"
  by (simp only: power_add[symmetric]) simp

lemma mul_total:
  assumes "0 \<le> n" "n < 2 ^ 53" "0 \<le> a" "a \<le> 2 ^ 53"
  shows "\<exists>k. ebind (int_mul_float n a) py_int = Inr k"
proof -
  have n: "(0::rat) \<le> of_int n" using assms(1) by simp
  have "(of_int n :: rat) \<le> of_int (2 ^ 53)" using assms(2) by (simp only: of_int_le_iff)
  then have n': "(of_int n :: rat) \<le> 2 ^ 53" by simp
  have "of_int n * a \<le> 2 ^ 53 * 2 ^ 53" using n' assms(4) n assms(3) by (intro mult_mono) simp_all
  then have "of_int n * a \<le> 2 ^ 106" by (simp only: square_bound)
  moreover have "0 \<le> of_int n * a" using n assms(3) by simp
  ultimately have "float_result (of_int n * a) = Finite (round_double (of_int n * a))"
    by (intro float_result_bounded)
  then show ?thesis using int_mul_unfold[OF assms(1,2), of a] py_int_Finite by simp
qed

lemma div_total:
  assumes "0 \<le> n" "n < 2 ^ 53" "1 / 2 ^ 53 \<le> a"
  shows "\<exists>k. ebind (int_div_float n a) py_int = Inr k"
proof -
  have a: "0 < a"
  proof -
    have "(0::rat) < 1 / 2 ^ 53" by simp
    then show ?thesis using assms(3) by (rule less_le_trans)
  qed
  have n: "(0::rat) \<le> of_int n" using assms(1) by simp
  have "(of_int n :: rat) \<le> of_int (2 ^ 53)" using assms(2) by (simp only: of_int_le_iff)
  then have n': "(of_int n :: rat) \<le> 2 ^ 53" by simp
  have "1 \<le> a * 2 ^ 53" using assms(3) by (simp add: pos_divide_le_eq)
  then have "of_int n * 1 \<le> of_int n * (a * 2 ^ 53)" using n by (rule mult_left_mono)
  then have "of_int n \<le> (of_int n * 2 ^ 53) * a" by (simp add: mult_ac)
  then have "of_int n / a \<le> of_int n * 2 ^ 53" using a by (simp only: pos_divide_le_eq)
  moreover have "of_int n * (2::rat) ^ 53 \<le> 2 ^ 53 * 2 ^ 53" using n' by (intro mult_right_mono) simp_all
  ultimately have "of_int n / a \<le> 2 ^ 106" by (simp only: square_bound)
  moreover have "0 \<le> of_int n / a" using n a by simp
  ultimately have "float_result (of_int n / a) = Finite (round_double (of_int n / a))"
    by (intro float_result_bounded)
  then show ?thesis using int_div_unfold[OF assms(1,2), of a] a py_int_Finite by simp
qed

lemma truediv_dimension:
  assumes "dimension a" "dimension b"
  shows "\<exists>r. int_truediv a b = Inr r \<and> 1 / 2 ^ 53 \<le> r \<and> r \<le> 2 ^ 53"
proof -
  have a: "0 < a" "a < 2 ^ 53" and b: "0 < b" "b < 2 ^ 53"
    using assms by (simp_all add: dimension_def)
  define x where "x = (of_int a :: rat) / of_int b"
  have br: "(0::rat) < of_int b" using b(1) by simp
  have "a * 1 \<le> a * b" using a(1) b(1) by (intro mult_left_mono) simp_all
  then have ab: "a \<le> a * b" by simp
  have t: "int_truediv a b = Inr (round_double x)"
    unfolding x_def using a(1) b(1) ab a(2) by (intro int_truediv_small) simp_all
  have x0: "0 \<le> x" using a(1) br by (simp add: x_def)
  have "(of_int a :: rat) \<le> of_int (a * b)" using ab by (simp only: of_int_le_iff)
  then have "x \<le> of_int a" unfolding x_def using br by (simp add: pos_divide_le_eq)
  with x0 have "round_double x \<le> of_int a" using a(2) by (rule round_le_int)
  moreover have "(of_int a :: rat) \<le> of_int (2 ^ 53)" using a(2) by (simp only: of_int_le_iff)
  ultimately have hi: "round_double x \<le> 2 ^ 53" by simp
  have "(of_int b :: rat) \<le> of_int (2 ^ 53)" using b(2) by (simp only: of_int_le_iff)
  then have "(of_int b :: rat) \<le> 2 ^ 53" by simp
  moreover have "(1::rat) \<le> of_int a" using a(1) by simp
  ultimately have "(of_int b :: rat) * 1 \<le> 2 ^ 53 * of_int a" using br
    by (simp add: mult_mono)
  then have "1 / 2 ^ 53 \<le> x" unfolding x_def using br
    by (simp add: pos_le_divide_eq pos_divide_le_eq mult.commute)
  moreover have "(0::rat) \<le> 1 / 2 ^ 53" by simp
  ultimately have "round_double (1 / 2 ^ 53) \<le> round_double x" by (intro round_double_mono)
  moreover have "round_double (of_int 1 * 2 powi (- 53)) = of_int 1 * 2 powi (- 53)"
    by (rule round_double_dyadic) simp_all
  then have "round_double (1 / 2 ^ 53) = 1 / 2 ^ 53"
    by (simp add: power_int_def inverse_eq_divide power_one_over)
  ultimately have "1 / 2 ^ 53 \<le> round_double x" by simp
  then show ?thesis using t hi by simp
qed

lemma landscape_window_total:
  assumes "dimension W" "dimension H" "1 / 2 ^ 53 \<le> a" "a \<le> 2 ^ 53"
  shows "\<exists>w. landscape_window (W, H) a = Inr w"
proof -
  have W: "0 \<le> W" "W < 2 ^ 53" and H: "0 \<le> H" "H < 2 ^ 53"
    using assms(1,2) by (simp_all add: dimension_def)
  have "(0::rat) \<le> 1 / 2 ^ 53" by simp
  then have a0: "0 \<le> a" using assms(3) by (rule order_trans)
  obtain k where k: "ebind (int_div_float W a) py_int = Inr k"
    using div_total[OF W assms(3)] by blast
  obtain c where c: "ebind (int_mul_float H a) py_int = Inr c"
    using mul_total[OF H a0 assms(4)] by blast
  show ?thesis by (simp add: landscape_window_def k c)
qed

lemma portrait_window_total:
  assumes "dimension W" "dimension H" "1 / 2 ^ 53 \<le> a" "a \<le> 2 ^ 53"
  shows "\<exists>w. portrait_window (W, H) a = Inr w"
proof -
  have W: "0 \<le> W" "W < 2 ^ 53" and H: "0 \<le> H" "H < 2 ^ 53"
    using assms(1,2) by (simp_all add: dimension_def)
  have "(0::rat) \<le> 1 / 2 ^ 53" by simp
  then have a0: "0 \<le> a" using assms(3) by (rule order_trans)
  obtain k where k: "ebind (int_div_float W a) py_int = Inr k"
    using div_total[OF W assms(3)] by blast
  obtain c where c: "ebind (int_mul_float H a) py_int = Inr c"
    using mul_total[OF H a0 assms(4)] by blast
  show ?thesis by (simp add: portrait_window_def k c)
qed

lemma never_raises_crop:
  assumes "never_raises lib"
  shows "image_crop lib img (l, u, r, lo) = Inr (Crop l u r lo)"
proof -
  have "crop_raises lib img (l, u, r, lo) = None"
    using assms unfolding never_raises_def by blast
  then show ?thesis by (simp add: image_crop_def)
qed

lemma never_raises_resize:
  assumes "never_raises lib"
  shows "\<exists>f. image_resize lib img c s = Inr f"
proof -
  obtain s' where "resize_returns lib img c s = Inr s'"
    using assms unfolding never_raises_def by blast
  then show ?thesis by (simp add: image_resize_def)
qed

lemma never_raises_save:
  assumes "never_raises lib"
  shows "image_save lib g = Inr (Some g)"
proof -
  have "save_raises lib g = None" using assms unfolding never_raises_def by blast
  then show ?thesis by (simp add: image_save_def)
qed

lemma crop_total:
  assumes "dimension W" "dimension H" "dimension tw" "dimension th" "never_raises lib"
  shows "\<exists>f. crop_and_resize_to_ad_size lib (W, H) tw th = Inr f"
proof -
  have W: "0 \<le> W" "W < 2 ^ 53" and H: "0 \<le> H" "H < 2 ^ 53"
    using assms(1,2) by (simp_all add: dimension_def)
  obtain ta where ta: "int_truediv tw th = Inr ta" "1 / 2 ^ 53 \<le> ta" "ta \<le> 2 ^ 53"
    using truediv_dimension[OF assms(3,4)] by blast
  obtain ca where ca: "int_truediv W H = Inr ca"
    using truediv_dimension[OF assms(1,2)] by blast
  have "(0::rat) \<le> 1 / 2 ^ 53" by simp
  then have a0: "0 \<le> ta" using ta(2) by (rule order_trans)
  obtain k where k: "ebind (int_div_float W ta) py_int = Inr k"
    using div_total[OF W ta(2)] by blast
  obtain c where c: "ebind (int_mul_float H ta) py_int = Inr c"
    using mul_total[OF H a0 ta(3)] by blast
  show ?thesis
    using never_raises_resize[OF assms(5)]
    by (simp add: crop_and_resize_to_ad_size_def ta(1) ca k c Let_def
        never_raises_crop[OF assms(5)])
qed

lemma pan_range_total:
  assumes "dimension W" "dimension H" "dimension tw" "dimension th"
  shows "\<exists>m. pan_range (W, H) tw th = Inr m"
proof -
  obtain ta where ta: "int_truediv tw th = Inr ta" "1 / 2 ^ 53 \<le> ta" "ta \<le> 2 ^ 53"
    using truediv_dimension[OF assms(3,4)] by blast
  show ?thesis
  proof (cases "th < tw")
    case True
    obtain w where "landscape_window (W, H) ta = Inr w"
      using landscape_window_total[OF assms(1,2) ta(2,3)] by blast
    then show ?thesis using pan_landscape(1)[OF True ta(1), of W H "fst w" "snd w"] by auto
  next
    case False
    obtain w where "portrait_window (W, H) ta = Inr w"
      using portrait_window_total[OF assms(1,2) ta(2,3)] by blast
    then show ?thesis using pan_portrait(1)[OF False ta(1), of W H "fst w" "snd w"] by auto
  qed
qed

text \<open>The loop raises only if the library does.\<close>

lemma pan_sequence_total:
  assumes "pan_range (W, H) tw th = Inr m" "0 < m" "dimension W" "dimension H"
    "0 < tw" "0 < th" "never_raises lib"
  shows "\<exists>fs. pan_frames lib (W, H) tw th n = Inr fs"
proof -
  have mb: "0 \<le> m" "m < 2 ^ 53" using pan_range_bounds[OF assms(1,3,4,5,6)] by simp_all
  have r: "\<exists>f. ebind (image_crop lib (W, H) (l, u, r, lo))
      (\<lambda>cropped. image_resize lib (W, H) cropped (tw, th)) = Inr f" for l u r lo
    using never_raises_resize[OF assms(7)] by (simp add: never_raises_crop[OF assms(7)])
  show ?thesis
    using assms(1)
  proof (cases rule: pan_range_cases)
    case (vertical ta cw ch)
    have "\<exists>fs. collect (\<lambda>i. ebind (pan_offset m n i) (\<lambda>t.
           ebind (image_crop lib (W, H) ((W - cw) div 2, t, (W - cw) div 2 + cw, t + ch))
             (\<lambda>cropped. image_resize lib (W, H) cropped (tw, th)))) [0..n - 1] = Inr fs"
      using mb by (rule pan_loop_total) (rule r)
    then show ?thesis
      using pan_landscape(2)[OF vertical(1,2,3), of lib n] assms(2) vertical(4) by simp
  next
    case (horizontal ta cw ch)
    have "\<exists>fs. collect (\<lambda>i. ebind (pan_offset m n i) (\<lambda>t.
           ebind (image_crop lib (W, H) (t, (H - ch) div 2, t + cw, (H - ch) div 2 + ch))
             (\<lambda>cropped. image_resize lib (W, H) cropped (tw, th)))) [0..n - 1] = Inr fs"
      using mb by (rule pan_loop_total) (rule r)
    then show ?thesis
      using pan_portrait(2)[OF horizontal(1,2,3), of lib n] assms(2) horizontal(4) by simp
  qed
qed

lemma pan_frames_total:
  assumes "dimension W" "dimension H" "dimension tw" "dimension th" "never_raises lib"
  shows "\<exists>fs. pan_frames lib (W, H) tw th n = Inr fs"
proof -
  have t: "0 < tw" "0 < th" using assms(3,4) by (simp_all add: dimension_def)
  obtain m where m: "pan_range (W, H) tw th = Inr m"
    using pan_range_total[OF assms(1,2,3,4)] by blast
  show ?thesis
  proof (cases "0 < m")
    case False
    obtain f where "crop_and_resize_to_ad_size lib (W, H) tw th = Inr f"
      using crop_total[OF assms] by blast
    then show ?thesis using pan_single[OF m False, of lib n] by simp
  next
    case True
    show ?thesis using m True assms(1,2) t assms(5) by (rule pan_sequence_total)
  qed
qed

subsection \<open>Evaluating the operations on concrete inputs\<close>

lemma floor_round_half:
  assumes "0 \<le> N" "N < 2 ^ 52" "of_int N \<le> x" "x \<le> of_int N + 1 / 2"
  shows "\<lfloor>round_double x\<rfloor> = N"
proof -
  have N53: "N < 2 ^ 53" using assms(2) by simp
  have lo: "of_int N \<le> round_double x" using assms(1) N53 assms(3) by (rule round_ge_int)
  have x0: "0 \<le> x"
  proof -
    have "(0::rat) \<le> of_int N" using assms(1) by simp
    then show ?thesis using assms(3) by (rule order_trans)
  qed
  have eq: "(of_int (2 * N + 1) :: rat) * 2 powi (- 1) = of_int N + 1 / 2"
    by (simp add: power_int_def field_simps)
  have "round_double (of_int (2 * N + 1) * 2 powi (- 1)) = of_int (2 * N + 1) * 2 powi (- 1)"
    using assms(1,2) by (intro round_double_dyadic) simp_all
  then have "round_double (of_int N + 1 / 2) = of_int N + 1 / 2" by (simp only: eq)
  moreover have "round_double x \<le> round_double (of_int N + 1 / 2)"
    using x0 assms(4) by (rule round_double_mono)
  ultimately have "round_double x \<le> of_int N + 1 / 2" by simp
  then have hi: "round_double x < of_int N + 1" by simp
  show ?thesis using lo hi by (rule floor_unique)
qed

lemma int_div_between:
  assumes "0 \<le> n" "n < 2 ^ 53" "0 < a" "0 \<le> k" "k < 2 ^ 52"
    "of_int k \<le> of_int n / a" "of_int n / a \<le> of_int k + 1 / 2"
  shows "ebind (int_div_float n a) py_int = Inr k"
proof -
  have x0: "0 \<le> of_int n / a" using assms(1,3) by simp
  have "of_int n / a \<le> of_int (k + 1)" using assms(7) by simp
  moreover have "k + 1 < 2 ^ 53" using assms(5) by simp
  ultimately have "py_int (float_result (of_int n / a)) = Inr \<lfloor>round_double (of_int n / a)\<rfloor>"
    using x0 by (intro py_int_float_result_small)
  then show ?thesis
    using int_div_unfold[OF assms(1,2), of a] assms(3) floor_round_half[OF assms(4,5,6,7)]
    by simp
qed

lemma int_mul_between:
  assumes "0 \<le> n" "n < 2 ^ 53" "0 \<le> a" "0 \<le> k" "k < 2 ^ 52"
    "of_int k \<le> of_int n * a" "of_int n * a \<le> of_int k + 1 / 2"
  shows "ebind (int_mul_float n a) py_int = Inr k"
proof -
  have x0: "0 \<le> of_int n * a" using assms(1,3) by simp
  have "of_int n * a \<le> of_int (k + 1)" using assms(7) by simp
  moreover have "k + 1 < 2 ^ 53" using assms(5) by simp
  ultimately have "py_int (float_result (of_int n * a)) = Inr \<lfloor>round_double (of_int n * a)\<rfloor>"
    using x0 by (intro py_int_float_result_small)
  then show ?thesis
    using int_mul_unfold[OF assms(1,2), of a] floor_round_half[OF assms(4,5,6,7)]
    by simp
qed

lemma int_truediv_int:
  assumes "0 \<le> q" "q < 2 ^ 53" "0 < b"
  shows "int_truediv (q * b) b = Inr (of_int q)"
proof -
  have "0 \<le> q * b" using assms(1,3) by simp
  then have "int_truediv (q * b) b = Inr (round_double (of_int (q * b) / of_int b))"
    using assms(3) order_refl assms(2) by (rule int_truediv_small)
  moreover have "(of_int (q * b) :: rat) / of_int b = of_int q" using assms(3) by simp
  ultimately show ?thesis using assms(1,2) by (simp add: round_double_of_int)
qed

lemma round_double_eval:
  assumes "2 powi e \<le> x" "x < 2 powi (e + 1)" "- 1022 \<le> e"
  shows "round_double x = of_int (round_half_even (x / 2 powi (e - 52))) * 2 powi (e - 52)"
proof -
  have "(0::rat) < 2 powi e" by simp
  then have x0: "0 < x" using assms(1) by (rule less_le_trans)
  then have "ilog2 \<bar>x\<bar> = e" using ilog2_unique[OF assms(1,2)] by simp
  then have "quantum_exp x = e - 52" using assms(3) by (simp add: quantum_exp_def)
  then show ?thesis using x0 by (simp add: round_double_def)
qed

lemma round_half_even_near:
  assumes "of_int M - 1 / 2 < y" "y < of_int M + 1 / 2"
  shows "round_half_even y = M"
proof (cases "of_int M \<le> y")
  case True
  have "y < of_int M + 1" using assms(2) by simp
  with True have "\<lfloor>y\<rfloor> = M" by (rule floor_unique)
  then show ?thesis using assms(2) by (simp add: round_half_even_def Let_def)
next
  case False
  have "of_int (M - 1) \<le> y" using assms(1) by simp
  moreover have "y < of_int (M - 1) + 1" using False by simp
  ultimately have "\<lfloor>y\<rfloor> = M - 1" by (rule floor_unique)
  then show ?thesis using assms(1) by (simp add: round_half_even_def Let_def)
qed

text \<open>
  A quotient just below an integer, by less than half a unit in the last place: the
  rounding gives the integer itself.
\<close>

lemma round_reaches_integer: "round_double (14837286632760900 / 8388619) = 1768740079"
proof -
  have p: "(2::rat) powi (30 - 52) = 1 / 4194304"
    by (simp add: power_int_def inverse_eq_divide power_one_over)
  have "round_double (14837286632760900 / 8388619)
      = of_int (round_half_even ((14837286632760900 / 8388619) / 2 powi (30 - 52)))
        * 2 powi (30 - 52)"
    by (rule round_double_eval) (simp_all add: power_int_def)
  moreover have "round_half_even ((14837286632760900 / 8388619) / 2 powi (30 - 52))
      = 7418633588310016"
    unfolding p by (rule round_half_even_near) simp_all
  ultimately show ?thesis unfolding p by simp
qed

lemma upto3: "[0..2] = [0, 1, 2::int]"
  by (simp add: upto_rec1)

subsection \<open>Further facts about the two functions\<close>

lemma pan_single_frame:
  assumes "pan_range (W, H) tw th = Inr m" "\<not> 0 < m" "pan_frames lib (W, H) tw th n = Inr fs"
  shows "\<exists>f. crop_and_resize_to_ad_size lib (W, H) tw th = Inr f \<and> fs = [f]"
proof -
  have "ebind (crop_and_resize_to_ad_size lib (W, H) tw th) (\<lambda>f. Inr [f]) = Inr fs"
    using pan_single[OF assms(1,2), of lib n] assms(3) by simp
  then show ?thesis by (cases "crop_and_resize_to_ad_size lib (W, H) tw th") auto
qed

lemma pan_no_frames:
  assumes "pan_range (W, H) tw th = Inr m" "0 < m"
  shows "pan_frames lib (W, H) tw th 0 = Inr []"
  using assms(1)
proof (cases rule: pan_range_cases)
  case (vertical ta cw ch)
  then show ?thesis using pan_landscape(2)[of th tw ta W H cw ch lib 0] assms(2) by simp
next
  case (horizontal ta cw ch)
  then show ?thesis using pan_portrait(2)[of th tw ta W H cw ch lib 0] assms(2) by simp
qed

lemma zero_height: "int_truediv tw 0 = Inl ZeroDivisionError"
  by (simp add: int_truediv_def)

lemma zero_width_aspect: "th \<noteq> 0 \<Longrightarrow> int_truediv 0 th = Inr 0"
  by (simp add: int_truediv_def float_result_def round_double_zero)

lemma zero_width_crop:
  assumes "dimension W" "dimension H" "th \<noteq> 0"
  shows "crop_and_resize_to_ad_size lib (W, H) 0 th
    = ebind (image_crop lib (W, H) (W div 2, 0, W div 2, H))
        (\<lambda>cropped. image_resize lib (W, H) cropped (0, th))"
proof -
  have H: "0 \<le> H" "H < 2 ^ 53" using assms(2) by (simp_all add: dimension_def)
  obtain ca where ca: "int_truediv W H = Inr ca" "1 / 2 ^ 53 \<le> ca"
    using truediv_dimension[OF assms(1,2)] by blast
  have "(0::rat) < 1 / 2 ^ 53" by simp
  then have "0 < ca" using ca(2) by (rule less_le_trans)
  moreover have "ebind (int_mul_float H 0) py_int = Inr 0"
    using H by (intro int_mul_between) simp_all
  ultimately show ?thesis
    using ca(1) zero_width_aspect[OF assms(3)]
    by (simp add: crop_and_resize_to_ad_size_def Let_def)
qed

lemma zero_width_pan:
  assumes "dimension W" "dimension H" "0 < th"
  shows "pan_range (W, H) 0 th = Inr W" and "pan_frames lib (W, H) 0 th 0 = Inr []"
proof -
  have H: "0 \<le> H" "H < 2 ^ 53" and W: "0 < W" using assms(1,2) by (simp_all add: dimension_def)
  have a: "int_truediv 0 th = Inr 0" using assms(3) by (intro zero_width_aspect) simp
  have "ebind (int_mul_float H 0) py_int = Inr 0"
    using H by (intro int_mul_between) simp_all
  then have w: "portrait_window (W, H) 0 = Inr (0, H)"
    using W by (simp add: portrait_window_def)
  have n: "\<not> th < 0" using assms(3) by simp
  show r: "pan_range (W, H) 0 th = Inr W" using pan_portrait(1)[OF n a w] by simp
  show "pan_frames lib (W, H) 0 th 0 = Inr []" using r W by (rule pan_no_frames)
qed

subsection \<open>Exceptions come out of the library only\<close>

lemma collect_Inl:
  assumes "collect f xs = Inl e"
  shows "\<exists>x\<in>set xs. f x = Inl e"
  using assms
proof (induction xs)
  case Nil
  then show ?case by simp
next
  case (Cons x xs)
  show ?case
  proof (cases "f x")
    case (Inl e')
    then show ?thesis using Cons.prems by simp
  next
    case y: (Inr y)
    then have "collect f xs = Inl e"
      using Cons.prems by (cases "collect f xs") simp_all
    then show ?thesis using Cons.IH by auto
  qed
qed

lemma image_crop_Inl:
  assumes "image_crop lib img box = Inl e"
  shows "crop_raises lib img box = Some e"
  using assms by (cases box) (auto simp add: image_crop_def split: option.splits)

lemma image_resize_Inl:
  assumes "image_resize lib img c s = Inl e"
  shows "resize_returns lib img c s = Inl e"
  using assms by (auto simp add: image_resize_def split: sum.splits)

lemma crop_resize_Inl:
  assumes "ebind (image_crop lib img box) (\<lambda>c. image_resize lib img c s) = Inl e"
  shows "raised_by lib img s e"
proof (cases "image_crop lib img box")
  case (Inl e')
  then have "crop_raises lib img box = Some e" using assms image_crop_Inl[of lib img box e] by simp
  then show ?thesis unfolding raised_by_def by blast
next
  case (Inr c)
  then have "resize_returns lib img c s = Inl e"
    using assms image_resize_Inl[of lib img c s e] by simp
  then show ?thesis unfolding raised_by_def by blast
qed

lemma crop_raises_library:
  assumes "dimension W" "dimension H" "dimension tw" "dimension th"
    "crop_and_resize_to_ad_size lib (W, H) tw th = Inl e"
  shows "raised_by lib (W, H) (tw, th) e"
proof -
  have W: "0 \<le> W" "W < 2 ^ 53" and H: "0 \<le> H" "H < 2 ^ 53"
    using assms(1,2) by (simp_all add: dimension_def)
  obtain ta where ta: "int_truediv tw th = Inr ta" "1 / 2 ^ 53 \<le> ta" "ta \<le> 2 ^ 53"
    using truediv_dimension[OF assms(3,4)] by blast
  obtain ca where ca: "int_truediv W H = Inr ca"
    using truediv_dimension[OF assms(1,2)] by blast
  have "(0::rat) \<le> 1 / 2 ^ 53" by simp
  then have a0: "0 \<le> ta" using ta(2) by (rule order_trans)
  obtain k where k: "ebind (int_div_float W ta) py_int = Inr k"
    using div_total[OF W ta(2)] by blast
  obtain c where c: "ebind (int_mul_float H ta) py_int = Inr c"
    using mul_total[OF H a0 ta(3)] by blast
  consider (wide) "ca > ta" | (tall) "\<not> ca > ta" "ca < ta" | (same) "\<not> ca > ta" "\<not> ca < ta"
    by blast
  then show ?thesis
  proof cases
    case wide
    then have "ebind (image_crop lib (W, H) ((W - c) div 2, 0, (W - c) div 2 + c, H))
        (\<lambda>cropped. image_resize lib (W, H) cropped (tw, th)) = Inl e"
      using assms(5) by (simp add: crop_and_resize_to_ad_size_def ta(1) ca c Let_def)
    then show ?thesis by (rule crop_resize_Inl)
  next
    case tall
    then have "ebind (image_crop lib (W, H) (0, (H - k) div 2, W, (H - k) div 2 + k))
        (\<lambda>cropped. image_resize lib (W, H) cropped (tw, th)) = Inl e"
      using assms(5) by (simp add: crop_and_resize_to_ad_size_def ta(1) ca k Let_def)
    then show ?thesis by (rule crop_resize_Inl)
  next
    case same
    then have "image_resize lib (W, H) Uncropped (tw, th) = Inl e"
      using assms(5) by (simp add: crop_and_resize_to_ad_size_def ta(1) ca)
    then have "resize_returns lib (W, H) Uncropped (tw, th) = Inl e" by (rule image_resize_Inl)
    then show ?thesis unfolding raised_by_def by blast
  qed
qed

lemma pan_loop_Inl:
  assumes "collect (\<lambda>i. ebind (pan_offset m n i) G) [0..n - 1] = Inl e" "0 \<le> m" "m < 2 ^ 53"
  shows "\<exists>t. G t = Inl e"
proof -
  obtain x where x: "x \<in> set [0..n - 1]" and e: "ebind (pan_offset m n x) G = Inl e"
    using collect_Inl[OF assms(1)] by blast
  have r: "0 \<le> x" "x \<le> n - 1" using x by simp_all
  then have "1 < n \<Longrightarrow> pan_offset m n x
      = Inr \<lfloor>round_double (of_int (m * x) / of_int (n - 1))\<rfloor>"
    using assms(2,3) by (intro pan_offset_eval)
  then obtain t where "pan_offset m n x = Inr t"
    using pan_offset_single[of n m x] by (cases "1 < n") simp_all
  then show ?thesis using e by auto
qed

lemma pan_raises_library:
  assumes "dimension W" "dimension H" "dimension tw" "dimension th"
    "pan_frames lib (W, H) tw th n = Inl e"
  shows "raised_by lib (W, H) (tw, th) e"
proof -
  have t: "0 < tw" "0 < th" using assms(3,4) by (simp_all add: dimension_def)
  obtain m where m: "pan_range (W, H) tw th = Inr m"
    using pan_range_total[OF assms(1,2,3,4)] by blast
  have mb: "0 \<le> m" "m < 2 ^ 53" using pan_range_bounds[OF m assms(1,2) t] by simp_all
  show ?thesis
  proof (cases "0 < m")
    case False
    have "crop_and_resize_to_ad_size lib (W, H) tw th = Inl e"
      using pan_single[OF m False, of lib n] assms(5)
      by (cases "crop_and_resize_to_ad_size lib (W, H) tw th") simp_all
    with assms(1,2,3,4) show ?thesis by (rule crop_raises_library)
  next
    case True
    show ?thesis
      using m
    proof (cases rule: pan_range_cases)
      case (vertical ta cw ch)
      have "collect (\<lambda>i. ebind (pan_offset m n i) (\<lambda>t.
           ebind (image_crop lib (W, H) ((W - cw) div 2, t, (W - cw) div 2 + cw, t + ch))
             (\<lambda>cropped. image_resize lib (W, H) cropped (tw, th)))) [0..n - 1] = Inl e"
        using pan_landscape(2)[OF vertical(1,2,3), of lib n] True vertical(4) assms(5) by simp
      then obtain t where
        "ebind (image_crop lib (W, H) ((W - cw) div 2, t, (W - cw) div 2 + cw, t + ch))
             (\<lambda>cropped. image_resize lib (W, H) cropped (tw, th)) = Inl e"
        using pan_loop_Inl[OF _ mb] by blast
      then show ?thesis by (rule crop_resize_Inl)
    next
      case (horizontal ta cw ch)
      have "collect (\<lambda>i. ebind (pan_offset m n i) (\<lambda>t.
           ebind (image_crop lib (W, H) (t, (H - ch) div 2, t + cw, (H - ch) div 2 + ch))
             (\<lambda>cropped. image_resize lib (W, H) cropped (tw, th)))) [0..n - 1] = Inl e"
        using pan_portrait(2)[OF horizontal(1,2,3), of lib n] True horizontal(4) assms(5) by simp
      then obtain t where
        "ebind (image_crop lib (W, H) (t, (H - ch) div 2, t + cw, (H - ch) div 2 + ch))
             (\<lambda>cropped. image_resize lib (W, H) cropped (tw, th)) = Inl e"
        using pan_loop_Inl[OF _ mb] by blast
      then show ?thesis by (rule crop_resize_Inl)
    qed
  qed
qed

subsection \<open>No crop leaves the image\<close>

lemma bounded_crop_same:
  assumes "0 \<le> l" "r \<le> W" "0 \<le> u" "lo \<le> H"
  shows "image_crop (bounded_crops lib) (W, H) (l, u, r, lo) = image_crop lib (W, H) (l, u, r, lo)"
  using assms by (simp add: image_crop_def bounded_crops_def box_in_image_def)

lemma bounded_resize_same:
  "image_resize (bounded_crops lib) img c s = image_resize lib img c s"
  by (simp add: image_resize_def bounded_crops_def)

lemma crop_never_leaves:
  assumes "dimension W" "dimension H" "0 < tw" "0 < th"
  shows "crop_and_resize_to_ad_size (bounded_crops lib) (W, H) tw th
    = crop_and_resize_to_ad_size lib (W, H) tw th"
proof (cases "int_truediv tw th")
  case (Inl e)
  then show ?thesis by (simp add: crop_and_resize_to_ad_size_def)
next
  case ta: (Inr ta)
  show ?thesis
  proof (cases "int_truediv W H")
    case (Inl e)
    then show ?thesis using ta by (simp add: crop_and_resize_to_ad_size_def)
  next
    case ca: (Inr ca)
    consider (wide) "ca > ta" | (tall) "\<not> ca > ta" "ca < ta" | (same) "\<not> ca > ta" "\<not> ca < ta"
      by blast
    then show ?thesis
    proof cases
      case wide
      show ?thesis
      proof (cases "ebind (int_mul_float H ta) py_int")
        case (Inl e)
        then show ?thesis using ta ca wide by (simp add: crop_and_resize_to_ad_size_def)
      next
        case nw: (Inr nw)
        have "image_crop (bounded_crops lib) (W, H) ((W - nw) div 2, 0, (W - nw) div 2 + nw, H)
            = image_crop lib (W, H) ((W - nw) div 2, 0, (W - nw) div 2 + nw, H)"
          using wide_crop_bounds[OF assms ta ca wide nw] by (intro bounded_crop_same) simp_all
        then show ?thesis using ta ca wide nw
          by (simp add: crop_and_resize_to_ad_size_def Let_def bounded_resize_same)
      qed
    next
      case tall
      show ?thesis
      proof (cases "ebind (int_div_float W ta) py_int")
        case (Inl e)
        then show ?thesis using ta ca tall by (simp add: crop_and_resize_to_ad_size_def)
      next
        case nh: (Inr nh)
        have "image_crop (bounded_crops lib) (W, H) (0, (H - nh) div 2, W, (H - nh) div 2 + nh)
            = image_crop lib (W, H) (0, (H - nh) div 2, W, (H - nh) div 2 + nh)"
          using tall_crop_bounds[OF assms ta ca tall(2) nh] by (intro bounded_crop_same) simp_all
        then show ?thesis using ta ca tall nh
          by (simp add: crop_and_resize_to_ad_size_def Let_def bounded_resize_same)
      qed
    next
      case same
      then show ?thesis using ta ca
        by (simp add: crop_and_resize_to_ad_size_def bounded_resize_same)
    qed
  qed
qed

lemma collect_cong:
  assumes "\<And>x. x \<in> set xs \<Longrightarrow> f x = g x"
  shows "collect f xs = collect g xs"
  using assms by (induction xs) (simp_all cong: sum.case_cong)

lemma pan_loop_never_leaves:
  assumes "0 \<le> m" "m < 2 ^ 53"
    "\<And>t. 0 \<le> t \<Longrightarrow> t \<le> m \<Longrightarrow> G t = G' t"
  shows "collect (\<lambda>i. ebind (pan_offset m n i) G) [0..n - 1]
    = collect (\<lambda>i. ebind (pan_offset m n i) G') [0..n - 1]"
proof (rule collect_cong)
  fix x assume "x \<in> set [0..n - 1]"
  then have x: "0 \<le> x" "x \<le> n - 1" by simp_all
  show "ebind (pan_offset m n x) G = ebind (pan_offset m n x) G'"
  proof (cases "pan_offset m n x")
    case (Inl e)
    then show ?thesis by simp
  next
    case (Inr t)
    have "0 \<le> t" "t \<le> m" using pan_offset_range[OF Inr assms(1,2) x] by simp_all
    then show ?thesis using Inr assms(3) by simp
  qed
qed

lemma pan_never_leaves:
  assumes "dimension W" "dimension H" "0 < tw" "0 < th"
  shows "pan_frames (bounded_crops lib) (W, H) tw th n = pan_frames lib (W, H) tw th n"
proof (cases "int_truediv tw th")
  case (Inl e)
  then show ?thesis by (simp add: pan_frames_def)
next
  case ta: (Inr ta)
  have W: "W < 2 ^ 53" and H: "H < 2 ^ 53" using assms(1,2) by (simp_all add: dimension_def)
  have ta0: "0 \<le> ta" using ta assms(3,4) by (intro truediv_pos(1)[of tw th ta]) simp_all
  show ?thesis
  proof (cases "th < tw")
    case True
    show ?thesis
    proof (cases "landscape_window (W, H) ta")
      case (Inl e)
      then show ?thesis using ta True by (simp add: pan_frames_def)
    next
      case (Inr w)
      obtain cw ch where w: "landscape_window (W, H) ta = Inr (cw, ch)"
        using Inr by (cases w) simp
      have b: "0 \<le> cw \<and> cw \<le> W \<and> 0 \<le> ch \<and> ch \<le> H"
        using landscape_window_bounds[OF w assms(1,2) ta0] .
      then have lr: "0 \<le> (W - cw) div 2" "(W - cw) div 2 + cw \<le> W" by linarith+
      show ?thesis
      proof (cases "0 < H - ch")
        case False
        then show ?thesis
          using pan_landscape(2)[OF True ta w, of "bounded_crops lib" n]
            pan_landscape(2)[OF True ta w, of lib n] crop_never_leaves[OF assms, of lib]
          by simp
      next
        case pos: True
        have m: "0 \<le> H - ch" "H - ch < 2 ^ 53" using pos b H by simp_all
        have "collect (\<lambda>i. ebind (pan_offset (H - ch) n i) (\<lambda>t.
            ebind (image_crop (bounded_crops lib) (W, H)
                     ((W - cw) div 2, t, (W - cw) div 2 + cw, t + ch))
              (\<lambda>cropped. image_resize (bounded_crops lib) (W, H) cropped (tw, th))))
            [0..n - 1]
          = collect (\<lambda>i. ebind (pan_offset (H - ch) n i) (\<lambda>t.
            ebind (image_crop lib (W, H) ((W - cw) div 2, t, (W - cw) div 2 + cw, t + ch))
              (\<lambda>cropped. image_resize lib (W, H) cropped (tw, th)))) [0..n - 1]"
          using m
        proof (rule pan_loop_never_leaves)
          fix t :: int assume t: "0 \<le> t" "t \<le> H - ch"
          have "image_crop (bounded_crops lib) (W, H)
                ((W - cw) div 2, t, (W - cw) div 2 + cw, t + ch)
              = image_crop lib (W, H) ((W - cw) div 2, t, (W - cw) div 2 + cw, t + ch)"
            using lr t by (intro bounded_crop_same) simp_all
          then show "ebind (image_crop (bounded_crops lib) (W, H)
                ((W - cw) div 2, t, (W - cw) div 2 + cw, t + ch))
              (\<lambda>cropped. image_resize (bounded_crops lib) (W, H) cropped (tw, th))
            = ebind (image_crop lib (W, H) ((W - cw) div 2, t, (W - cw) div 2 + cw, t + ch))
              (\<lambda>cropped. image_resize lib (W, H) cropped (tw, th))"
            by (simp add: bounded_resize_same)
        qed
        then show ?thesis
          using pan_landscape(2)[OF True ta w, of "bounded_crops lib" n]
            pan_landscape(2)[OF True ta w, of lib n] pos
          by simp
      qed
    qed
  next
    case False
    show ?thesis
    proof (cases "portrait_window (W, H) ta")
      case (Inl e)
      then show ?thesis using ta False by (simp add: pan_frames_def)
    next
      case (Inr w)
      obtain cw ch where w: "portrait_window (W, H) ta = Inr (cw, ch)"
        using Inr by (cases w) simp
      have b: "0 \<le> cw \<and> cw \<le> W \<and> 0 \<le> ch \<and> ch \<le> H"
        using portrait_window_bounds[OF w assms(1,2) ta0] .
      then have ul: "0 \<le> (H - ch) div 2" "(H - ch) div 2 + ch \<le> H" by linarith+
      show ?thesis
      proof (cases "0 < W - cw")
        case no: False
        then show ?thesis
          using pan_portrait(2)[OF False ta w, of "bounded_crops lib" n]
            pan_portrait(2)[OF False ta w, of lib n] crop_never_leaves[OF assms, of lib]
          by simp
      next
        case pos: True
        have m: "0 \<le> W - cw" "W - cw < 2 ^ 53" using pos b W by simp_all
        have "collect (\<lambda>i. ebind (pan_offset (W - cw) n i) (\<lambda>t.
            ebind (image_crop (bounded_crops lib) (W, H)
                     (t, (H - ch) div 2, t + cw, (H - ch) div 2 + ch))
              (\<lambda>cropped. image_resize (bounded_crops lib) (W, H) cropped (tw, th))))
            [0..n - 1]
          = collect (\<lambda>i. ebind (pan_offset (W - cw) n i) (\<lambda>t.
            ebind (image_crop lib (W, H) (t, (H - ch) div 2, t + cw, (H - ch) div 2 + ch))
              (\<lambda>cropped. image_resize lib (W, H) cropped (tw, th)))) [0..n - 1]"
          using m
        proof (rule pan_loop_never_leaves)
          fix t :: int assume t: "0 \<le> t" "t \<le> W - cw"
          have "image_crop (bounded_crops lib) (W, H)
                (t, (H - ch) div 2, t + cw, (H - ch) div 2 + ch)
              = image_crop lib (W, H) (t, (H - ch) div 2, t + cw, (H - ch) div 2 + ch)"
            using ul t by (intro bounded_crop_same) simp_all
          then show "ebind (image_crop (bounded_crops lib) (W, H)
                (t, (H - ch) div 2, t + cw, (H - ch) div 2 + ch))
              (\<lambda>cropped. image_resize (bounded_crops lib) (W, H) cropped (tw, th))
            = ebind (image_crop lib (W, H) (t, (H - ch) div 2, t + cw, (H - ch) div 2 + ch))
              (\<lambda>cropped. image_resize lib (W, H) cropped (tw, th))"
            by (simp add: bounded_resize_same)
        qed
        then show ?thesis
          using pan_portrait(2)[OF False ta w, of "bounded_crops lib" n]
            pan_portrait(2)[OF False ta w, of lib n] pos
          by simp
      qed
    qed
  qed
qed

subsection \<open>The two libraries of the vocabulary\<close>

lemma ideal_crop: "image_crop ideal_library img (l, u, r, lo) = Inr (Crop l u r lo)"
  by (simp add: image_crop_def ideal_library_def)

lemma ideal_resize: "image_resize ideal_library img c s = Inr \<lparr>cropping = c, dims = s\<rparr>"
  by (simp add: image_resize_def ideal_library_def)

lemma ideal_save: "image_save ideal_library g = Inr (Some g)"
  by (simp add: image_save_def ideal_library_def)

lemma ideal_never_raises: "never_raises ideal_library"
  by (simp add: never_raises_def ideal_library_def)

lemma ideal_contract: "resize_contract ideal_library"
  by (simp add: resize_contract_def ideal_library_def)

lemma strict_crop: "image_crop strict_library img (l, u, r, lo) = Inr (Crop l u r lo)"
  by (simp add: image_crop_def strict_library_def)

lemma strict_resize:
  "image_resize strict_library img c (w, h)
    = (if w < 1 \<or> h < 1 then Inl ValueError else Inr \<lparr>cropping = c, dims = (w, h)\<rparr>)"
  by (simp add: image_resize_def strict_library_def)

subsection \<open>Worked inputs\<close>

lemma round_double_between:
  assumes "0 < p" "p < 2 ^ 53" "0 < q" "q < 2 ^ 53" "j \<le> 1074" "k \<le> 1074"
    "of_int p / 2 ^ j \<le> x" "x \<le> of_int q / 2 ^ k"
  shows "of_int p / 2 ^ j \<le> round_double x" and "round_double x \<le> of_int q / 2 ^ k"
proof -
  have e: "(of_int r :: rat) * 2 powi (- int i) = of_int r / 2 ^ i" for r i
    by (simp add: power_int_def inverse_eq_divide power_one_over)
  have "round_double (of_int p * 2 powi (- int j)) = of_int p * 2 powi (- int j)"
    using assms(1,2,5) by (intro round_double_dyadic) simp_all
  then have P: "round_double (of_int p / 2 ^ j) = of_int p / 2 ^ j" by (simp only: e)
  have "round_double (of_int q * 2 powi (- int k)) = of_int q * 2 powi (- int k)"
    using assms(3,4,6) by (intro round_double_dyadic) simp_all
  then have Q: "round_double (of_int q / 2 ^ k) = of_int q / 2 ^ k" by (simp only: e)
  have p0: "(0::rat) \<le> of_int p / 2 ^ j" using assms(1) by simp
  then have x0: "0 \<le> x" using assms(7) by (rule order_trans)
  have "round_double (of_int p / 2 ^ j) \<le> round_double x" using p0 assms(7) by (rule round_double_mono)
  then show "of_int p / 2 ^ j \<le> round_double x" by (simp only: P)
  have "round_double x \<le> round_double (of_int q / 2 ^ k)" using x0 assms(8) by (rule round_double_mono)
  then show "round_double x \<le> of_int q / 2 ^ k" by (simp only: Q)
qed

text \<open>A 4 by 4 image and the target (2, 1): a vertical pan over two rows.\<close>

lemma small_aspect: "int_truediv 2 1 = Inr 2"
  using int_truediv_int[of 2 1] by simp

lemma small_window: "landscape_window (4, 4) 2 = Inr (4, 2)"
  using int_div_between[of 4 2 2] by (simp add: landscape_window_def)

lemma small_range: "pan_range (4, 4) 2 1 = Inr 2"
  using pan_landscape(1)[of 1 2 2 4 4 4 2] small_aspect small_window by simp

lemma small_requests:
  "crop_and_resize_to_ad_size lib (4, 4) 2 1
     = ebind (image_crop lib (4, 4) (0, 1, 4, 3))
         (\<lambda>cropped. image_resize lib (4, 4) cropped (2, 1))"
  using int_div_between[of 4 2 2] int_truediv_int[of 1 4] small_aspect
  by (simp add: crop_and_resize_to_ad_size_def)

lemma small_crop:
  "crop_and_resize_to_ad_size ideal_library (4, 4) 2 1
     = Inr \<lparr>cropping = Crop 0 1 4 3, dims = (2, 1)\<rparr>"
  by (simp add: small_requests ideal_crop ideal_resize)

lemma small_overflow:
  "crop_and_resize_to_ad_size
     (ideal_library\<lparr>resize_returns := (\<lambda>img cropped new_size. Inl OverflowError)\<rparr>)
     (4, 4) 2 1 = Inl OverflowError"
  by (simp add: small_requests image_crop_def image_resize_def ideal_library_def)

lemma small_frames:
  "pan_frames ideal_library (4, 4) 2 1 3 =
     Inr [\<lparr>cropping = Crop 0 0 4 2, dims = (2, 1)\<rparr>,
          \<lparr>cropping = Crop 0 1 4 3, dims = (2, 1)\<rparr>,
          \<lparr>cropping = Crop 0 2 4 4, dims = (2, 1)\<rparr>]"
  using pan_landscape(2)[of 1 2 2 4 4 4 2 ideal_library 3] small_aspect small_window
    pan_offset_exact[of 3 2 0] pan_offset_exact[of 3 2 1] pan_offset_exact[of 3 2 2]
  by (simp add: upto3 Let_def ideal_crop ideal_resize)

text \<open>A 4 by 4 image and the square target (1, 1): nothing to pan over.\<close>

lemma square_aspect: "int_truediv 1 1 = Inr 1"
  using int_truediv_int[of 1 1] by simp

lemma square_range: "pan_range (4, 4) 1 1 = Inr 0"
proof -
  have "portrait_window (4, 4) 1 = Inr (4, 4)"
    using int_mul_between[of 4 1 4] by (simp add: portrait_window_def)
  then show ?thesis using pan_portrait(1)[of 1 1 1 4 4 4 4] square_aspect by simp
qed

lemma square_crop:
  "crop_and_resize_to_ad_size ideal_library (4, 4) 1 1
     = Inr \<lparr>cropping = Uncropped, dims = (1, 1)\<rparr>"
  using int_truediv_int[of 1 4] square_aspect
  by (simp add: crop_and_resize_to_ad_size_def ideal_resize)

text \<open>The master image of 1024 by 1024 and the medium rectangle (304, 248).\<close>

lemma rectangle_aspect: "int_truediv 304 248 = Inr (round_double (304 / 248))"
  using int_truediv_small[of 304 248 2] by simp

lemma rectangle_aspect_bounds:
  "40167 / 32768 \<le> round_double (304 / 248)" "round_double (304 / 248) \<le> 2511 / 2048"
  using round_double_between[of 40167 2511 15 11 "304 / 248"] by simp_all

lemma rectangle_height:
  "ebind (int_div_float 1024 (round_double (304 / 248))) py_int = Inr 835"
  using rectangle_aspect_bounds by (intro int_div_between) (simp_all add: field_simps)

lemma rectangle_width:
  "ebind (int_mul_float 1024 (round_double (304 / 248))) py_int = Inr 1255"
  using rectangle_aspect_bounds by (intro int_mul_between) simp_all

lemma rectangle_window:
  "landscape_window (1024, 1024) (round_double (304 / 248)) = Inr (1024, 835)"
  using rectangle_height by (simp add: landscape_window_def)

lemma rectangle_range: "pan_range (1024, 1024) 304 248 = Inr 189"
  using pan_landscape(1)[of 248 304 "round_double (304 / 248)" 1024 1024 1024 835]
    rectangle_aspect rectangle_window by simp

lemma rectangle_requests:
  "pan_frames lib (1024, 1024) 304 248 3 =
     collect (\<lambda>top. ebind (image_crop lib (1024, 1024) (0, top, 1024, top + 835))
                (\<lambda>cropped. image_resize lib (1024, 1024) cropped (304, 248)))
       [0, 94, 189]"
proof -
  have "list_all2 (\<lambda>i t. pan_offset 189 3 i = Inr t) [0, 1, 2] [0, 94, 189]"
    using pan_offset_exact[of 3 189 0] pan_offset_exact[of 3 189 1] pan_offset_exact[of 3 189 2]
    by simp
  then have "collect (\<lambda>i. ebind (pan_offset 189 3 i)
        (\<lambda>top. ebind (image_crop lib (1024, 1024) (0, top, 1024, top + 835))
                (\<lambda>cropped. image_resize lib (1024, 1024) cropped (304, 248)))) [0, 1, 2]
      = collect (\<lambda>top. ebind (image_crop lib (1024, 1024) (0, top, 1024, top + 835))
                (\<lambda>cropped. image_resize lib (1024, 1024) cropped (304, 248))) [0, 94, 189]"
    by (rule collect_offsets)
  then show ?thesis
    using pan_landscape(2)[of 248 304 "round_double (304 / 248)" 1024 1024 1024 835 lib 3]
      rectangle_aspect rectangle_window
    by (simp add: upto3)
qed

lemma rectangle_frames:
  "pan_frames ideal_library (1024, 1024) 304 248 3 =
     Inr [\<lparr>cropping = Crop 0 0 1024 835, dims = (304, 248)\<rparr>,
          \<lparr>cropping = Crop 0 94 1024 929, dims = (304, 248)\<rparr>,
          \<lparr>cropping = Crop 0 189 1024 1024, dims = (304, 248)\<rparr>]"
  by (simp add: rectangle_requests ideal_crop ideal_resize)

text \<open>A 10 by 10 image with the target (1, 1000).\<close>

lemma sliver_aspect: "int_truediv 1 1000 = Inr (round_double (1 / 1000))"
  using int_truediv_small[of 1 1000 1] by simp

lemma sliver_aspect_bounds:
  "0 \<le> round_double (1 / 1000)" "round_double (1 / 1000) \<le> 1 / 512"
  using round_double_between(2)[of 1 1 10 9 "1 / 1000"] round_double_nonneg[of "1 / 1000"]
  by simp_all

lemma sliver_crop:
  "crop_and_resize_to_ad_size lib (10, 10) 1 1000
     = ebind (image_crop lib (10, 10) (5, 0, 5, 10))
         (\<lambda>cropped. image_resize lib (10, 10) cropped (1, 1000))"
proof -
  have "ebind (int_mul_float 10 (round_double (1 / 1000))) py_int = Inr 0"
    using sliver_aspect_bounds by (intro int_mul_between) simp_all
  moreover have "round_double (1 / 1000) < 1" using sliver_aspect_bounds(2) by simp
  ultimately show ?thesis
    using sliver_aspect int_truediv_int[of 1 10]
    by (simp add: crop_and_resize_to_ad_size_def)
qed

text \<open>
  An image of 2 by 2147483647 and the target (2, 1): a pan range of 2147483646 rows,
  with 8388620 frames.
\<close>

lemma long_range: "pan_range (2, 2147483647) 2 1 = Inr 2147483646"
proof -
  have "landscape_window (2, 2147483647) 2 = Inr (2, 1)"
    using int_div_between[of 2 2 1] by (simp add: landscape_window_def)
  then show ?thesis using pan_landscape(1)[of 1 2 2 2 2147483647 2 1] small_aspect by simp
qed

lemma long_offset: "pan_offset 2147483646 8388620 6909150 = Inr 1768740079"
  using pan_offset_eval[of 8388620 2147483646 6909150] by (simp add: round_reaches_integer)

section \<open>The claims of the specification\<close>

text \<open>
  Claim C1, the offsets of the frames. With a pan range \<open>m > 0\<close> and \<open>n \<ge> 2\<close> frames, the
  list the loop returns has \<open>n\<close> frames, and frame \<open>i\<close> is at
  \<^verbatim>\<open>int((max_top * i) / (num_frames - 1))\<close>: the floor of the quotient rounded to a float
  (lines 141 and 167), for every \<open>i\<close>. The first frame is at 0 and the last at \<open>m\<close>
  exactly. The offset is \<open>\<lfloor>m * i / (n - 1)\<rfloor>\<close> as long as \<open>(m + 1) * (n - 1) \<le> 2 ^ 52\<close>; past
  that size the rounding can reach the next integer. The loop does return when the
  library raises nothing.
\<close>

theorem pan_offsets:
  assumes "pan_range (W, H) tw th = Inr m" "0 < m" "2 \<le> n"
    "dimension W" "dimension H" "0 < tw" "0 < th"
  shows "(pan_frames lib (W, H) tw th n = Inr fs \<longrightarrow>
        length fs = nat n
      \<and> (\<forall>i<nat n. pan_position tw th (fs ! i)
            = \<lfloor>round_double (of_int (m * int i) / of_int (n - 1))\<rfloor>)
      \<and> pan_position tw th (fs ! 0) = 0
      \<and> pan_position tw th (fs ! nat (n - 1)) = m
      \<and> ((m + 1) * (n - 1) \<le> 2 ^ 52 \<longrightarrow>
          (\<forall>i<nat n. pan_position tw th (fs ! i)
             = \<lfloor>(of_int (m * int i) :: rat) / of_int (n - 1)\<rfloor>)))
    \<and> (never_raises lib \<longrightarrow> (\<exists>fs. pan_frames lib (W, H) tw th n = Inr fs))"
proof -
  have mb: "0 \<le> m" "m < 2 ^ 53" using pan_range_bounds[OF assms(1,4,5,6,7)] by simp_all
  have n1: "1 < n" using assms(3) by simp
  have part: "length fs = nat n
      \<and> (\<forall>i<nat n. pan_position tw th (fs ! i)
            = \<lfloor>round_double (of_int (m * int i) / of_int (n - 1))\<rfloor>)
      \<and> pan_position tw th (fs ! 0) = 0
      \<and> pan_position tw th (fs ! nat (n - 1)) = m
      \<and> ((m + 1) * (n - 1) \<le> 2 ^ 52 \<longrightarrow>
          (\<forall>i<nat n. pan_position tw th (fs ! i)
             = \<lfloor>(of_int (m * int i) :: rat) / of_int (n - 1)\<rfloor>))"
    if fs: "pan_frames lib (W, H) tw th n = Inr fs"
  proof -
    have len: "length fs = nat n" using pan_sequence(1)[OF assms(1,2) fs] .
    have off: "pan_offset m n (int k) = Inr (pan_position tw th (fs ! k))" if "k < nat n" for k
      using pan_sequence(2)[OF assms(1,2) fs that] .
    have float: "pan_position tw th (fs ! i)
        = \<lfloor>round_double (of_int (m * int i) / of_int (n - 1))\<rfloor>" if "i < nat n" for i
      using off[OF that] n1 mb(1) by (rule pan_offset_Inr) simp
    have "pan_offset m n (int 0) = Inr (pan_position tw th (fs ! 0))"
      using assms(3) by (intro off) simp
    then have first: "pan_position tw th (fs ! 0) = 0" using pan_offset_first[of m n] by simp
    have "pan_offset m n (int (nat (n - 1))) = Inr (pan_position tw th (fs ! nat (n - 1)))"
      using assms(3) by (intro off) simp
    then have last: "pan_position tw th (fs ! nat (n - 1)) = m"
      using pan_offset_last[OF n1 mb] assms(3) by simp
    have exact: "pan_position tw th (fs ! i) = \<lfloor>(of_int (m * int i) :: rat) / of_int (n - 1)\<rfloor>"
      if "(m + 1) * (n - 1) \<le> 2 ^ 52" "i < nat n" for i
    proof -
      have "int i \<le> n - 1" using that(2) by simp
      then have "pan_offset m n (int i) = Inr ((m * int i) div (n - 1))"
        using n1 mb(1) that(1) by (intro pan_offset_exact) simp_all
      then have "pan_position tw th (fs ! i) = (m * int i) div (n - 1)"
        using off[OF that(2)] by simp
      then show ?thesis by (simp only: floor_divide_of_int_eq)
    qed
    show ?thesis using len float first last exact by blast
  qed
  have "\<exists>fs. pan_frames lib (W, H) tw th n = Inr fs" if "never_raises lib"
    using assms(1,2,4,5,6,7) that by (rule pan_sequence_total)
  then show ?thesis using part by blast
qed

theorem pan_offsets_witness:
  "pan_range (4, 4) 2 1 = Inr 2 \<and> dimension 4 \<and> never_raises ideal_library
   \<and> (\<exists>fs. pan_frames ideal_library (4, 4) 2 1 3 = Inr fs \<and> length fs = 3
        \<and> pan_position 2 1 (fs ! 0) = 0
        \<and> pan_position 2 1 (fs ! 1) = \<lfloor>round_double (2 / 2)\<rfloor>
        \<and> pan_position 2 1 (fs ! 1) = \<lfloor>(2::rat) / 2\<rfloor>
        \<and> pan_position 2 1 (fs ! 2) = 2)"
proof -
  let ?fs = "[\<lparr>cropping = Crop 0 0 4 2, dims = (2, 1)\<rparr>,
              \<lparr>cropping = Crop 0 1 4 3, dims = (2, 1)\<rparr>,
              \<lparr>cropping = Crop 0 2 4 4, dims = (2, 1)\<rparr>]"
  have d: "dimension 4" by (simp add: dimension_def)
  have "(pan_frames ideal_library (4, 4) 2 1 3 = Inr ?fs \<longrightarrow>
        length ?fs = nat 3
      \<and> (\<forall>i<nat 3. pan_position 2 1 (?fs ! i)
            = \<lfloor>round_double (of_int (2 * int i) / of_int (3 - 1))\<rfloor>)
      \<and> pan_position 2 1 (?fs ! 0) = 0
      \<and> pan_position 2 1 (?fs ! nat (3 - 1)) = 2
      \<and> ((2 + 1) * (3 - 1) \<le> (2::int) ^ 52 \<longrightarrow>
          (\<forall>i<nat 3. pan_position 2 1 (?fs ! i)
             = \<lfloor>(of_int (2 * int i) :: rat) / of_int (3 - 1)\<rfloor>)))
    \<and> (never_raises ideal_library \<longrightarrow> (\<exists>fs. pan_frames ideal_library (4, 4) 2 1 3 = Inr fs))"
    by (rule pan_offsets[OF small_range _ _ d d]) simp_all
  then have float: "\<forall>i<nat 3. pan_position 2 1 (?fs ! i)
            = \<lfloor>round_double (of_int (2 * int i) / of_int (3 - 1))\<rfloor>"
    and z: "pan_position 2 1 (?fs ! 0) = 0"
    and l: "pan_position 2 1 (?fs ! nat (3 - 1)) = 2"
    and floors: "(2 + 1) * (3 - 1) \<le> (2::int) ^ 52 \<longrightarrow>
          (\<forall>i<nat 3. pan_position 2 1 (?fs ! i)
             = \<lfloor>(of_int (2 * int i) :: rat) / of_int (3 - 1)\<rfloor>)"
    using small_frames by blast+
  have "(1::nat) < nat 3" by simp
  then have b: "pan_position 2 1 (?fs ! 1) = \<lfloor>round_double (of_int (2 * int 1) / of_int (3 - 1))\<rfloor>"
    using float by blast
  have "(2 + 1) * (3 - 1) \<le> (2::int) ^ 52" by simp
  then have c: "pan_position 2 1 (?fs ! 1) = \<lfloor>(of_int (2 * int 1) :: rat) / of_int (3 - 1)\<rfloor>"
    using floors \<open>(1::nat) < nat 3\<close> by blast
  have b': "pan_position 2 1 (?fs ! 1) = \<lfloor>round_double (2 / 2)\<rfloor>" using b by simp
  have c': "pan_position 2 1 (?fs ! 1) = \<lfloor>(2::rat) / 2\<rfloor>" using c by simp
  have l': "pan_position 2 1 (?fs ! 2) = 2" using l by simp
  have "pan_frames ideal_library (4, 4) 2 1 3 = Inr ?fs \<and> length ?fs = 3
      \<and> pan_position 2 1 (?fs ! 0) = 0
      \<and> pan_position 2 1 (?fs ! 1) = \<lfloor>round_double (2 / 2)\<rfloor>
      \<and> pan_position 2 1 (?fs ! 1) = \<lfloor>(2::rat) / 2\<rfloor>
      \<and> pan_position 2 1 (?fs ! 2) = 2"
    using small_frames z b' c' l' by simp
  then show ?thesis using small_range d ideal_never_raises by blast
qed

text \<open>
  An image of 2 by 2147483647 and the target (2, 1) leave a range of 2147483646 rows.
  With 8388620 frames, frame 6909150 is at row 1768740079: the quotient
  14837286632760900 / 8388619 rounds to the float 1768740079.0, while its floor is
  1768740078.
\<close>

theorem pan_offset_above_floor:
  "pan_range (2, 2147483647) 2 1 = Inr 2147483646
   \<and> pan_offset 2147483646 8388620 6909150 = Inr 1768740079
   \<and> (\<exists>fs. pan_frames ideal_library (2, 2147483647) 2 1 8388620 = Inr fs
        \<and> pan_position 2 1 (fs ! 6909150) = 1768740079)
   \<and> \<lfloor>(of_int (2147483646 * 6909150) :: rat) / of_int (8388620 - 1)\<rfloor> = 1768740078"
proof -
  have d: "dimension 2" "dimension 2147483647" by (simp_all add: dimension_def)
  obtain fs where fs: "pan_frames ideal_library (2, 2147483647) 2 1 8388620 = Inr fs"
    using pan_sequence_total[OF long_range _ d _ _ ideal_never_raises, of 8388620] by auto
  have "pan_offset 2147483646 8388620 (int 6909150)
      = Inr (pan_position 2 1 (fs ! 6909150))"
    using long_range _ fs by (rule pan_sequence(2)) simp_all
  then have "pan_position 2 1 (fs ! 6909150) = 1768740079" using long_offset by simp
  moreover have
    "\<lfloor>(of_int (2147483646 * 6909150) :: rat) / of_int (8388620 - 1)\<rfloor> = 1768740078"
    by (rule floor_unique) simp_all
  ultimately show ?thesis using long_range long_offset fs by blast
qed

text \<open>
  Claim C2, crop windows within the source. For an image of positive extents and a
  positive target, the box that \<^verbatim>\<open>crop_and_resize_to_ad_size\<close> passes to \<^verbatim>\<open>image.crop\<close>, and
  the box of every frame of \<^verbatim>\<open>create_panning_gif\<close>, satisfies \<open>0 \<le> left\<close>, \<open>right \<le> W\<close>,
  \<open>0 \<le> upper\<close> and \<open>lower \<le> H\<close>. This holds of the crops of a call that raises as
  well: with a library that refuses every crop leaving the image, both functions have
  the same outcome as with the library itself.
\<close>

theorem crop_windows_in_bounds:
  assumes "dimension W" "dimension H" "0 < tw" "0 < th"
  shows "(crop_and_resize_to_ad_size lib (W, H) tw th = Inr f \<longrightarrow> in_bounds (W, H) f)
    \<and> (pan_frames lib (W, H) tw th n = Inr fs \<longrightarrow> (\<forall>g\<in>set fs. in_bounds (W, H) g))
    \<and> crop_and_resize_to_ad_size (bounded_crops lib) (W, H) tw th
        = crop_and_resize_to_ad_size lib (W, H) tw th
    \<and> pan_frames (bounded_crops lib) (W, H) tw th n = pan_frames lib (W, H) tw th n"
proof -
  have "in_bounds (W, H) g"
    if fs: "pan_frames lib (W, H) tw th n = Inr fs" and g: "g \<in> set fs" for g
  proof -
    obtain m where m: "pan_range (W, H) tw th = Inr m" using pan_frames_range[OF fs] by blast
    show ?thesis
    proof (cases "0 < m")
      case True
      obtain k where k: "k < length fs" "g = fs ! k" using g by (auto simp add: in_set_conv_nth)
      have "k < nat n" using k(1) pan_sequence(1)[OF m True fs] by simp
      then show ?thesis unfolding k(2) by (rule pan_sequence_bounds[OF m True fs assms])
    next
      case False
      obtain f' where "crop_and_resize_to_ad_size lib (W, H) tw th = Inr f'" "fs = [f']"
        using pan_single_frame[OF m False fs] by blast
      then show ?thesis using g crop_and_resize_frame[OF _ assms] by simp
    qed
  qed
  then show ?thesis
    using crop_and_resize_frame[OF _ assms] crop_never_leaves[OF assms, of lib]
      pan_never_leaves[OF assms, of lib n]
    by blast
qed

theorem crop_windows_in_bounds_witness:
  "dimension 4 \<and> in_bounds (4, 4) \<lparr>cropping = Crop 0 1 4 3, dims = (2, 1)\<rparr>
   \<and> in_bounds (4, 4) \<lparr>cropping = Crop 0 0 4 2, dims = (2, 1)\<rparr>
   \<and> in_bounds (4, 4) \<lparr>cropping = Crop 0 2 4 4, dims = (2, 1)\<rparr>
   \<and> crop_and_resize_to_ad_size (bounded_crops ideal_library) (4, 4) 2 1
       = Inr \<lparr>cropping = Crop 0 1 4 3, dims = (2, 1)\<rparr>"
  using crop_windows_in_bounds[of 4 4 2 1 ideal_library
      "\<lparr>cropping = Crop 0 1 4 3, dims = (2, 1)\<rparr>" 3
      "[\<lparr>cropping = Crop 0 0 4 2, dims = (2, 1)\<rparr>,
        \<lparr>cropping = Crop 0 1 4 3, dims = (2, 1)\<rparr>,
        \<lparr>cropping = Crop 0 2 4 4, dims = (2, 1)\<rparr>]"]
    small_crop small_frames
  by (simp add: dimension_def)

text \<open>
  Claim C3, the size of a frame. The frame returned by \<^verbatim>\<open>crop_and_resize_to_ad_size\<close>, and
  every frame of \<^verbatim>\<open>create_panning_gif\<close>, is what the library's \<^verbatim>\<open>resize\<close> answered to the
  size (tw, th): the code passes the target through unchanged and returns the result as
  it is. So a frame has exactly the size (tw, th) when \<^verbatim>\<open>resize\<close> keeps its contract. A
  call that returns has one frame without a pan range, \<open>n\<close> frames with one. For extents
  and targets of ordinary size an exception can only come out of the library: the call
  returns whenever the library does.
\<close>

theorem frame_dimensions:
  "(crop_and_resize_to_ad_size lib (W, H) tw th = Inr f \<longrightarrow>
        resize_returns lib (W, H) (cropping f) (tw, th) = Inr (dims f)
      \<and> (resize_contract lib \<longrightarrow> dims f = (tw, th)))
   \<and> (pan_frames lib (W, H) tw th n = Inr fs \<longrightarrow>
        (\<forall>g\<in>set fs. resize_returns lib (W, H) (cropping g) (tw, th) = Inr (dims g)
           \<and> (resize_contract lib \<longrightarrow> dims g = (tw, th)))
      \<and> (\<forall>m. pan_range (W, H) tw th = Inr m \<longrightarrow> length fs = (if 0 < m then nat n else 1)))
   \<and> (dimension W \<and> dimension H \<and> dimension tw \<and> dimension th \<longrightarrow>
        (\<forall>e. crop_and_resize_to_ad_size lib (W, H) tw th = Inl e
            \<longrightarrow> raised_by lib (W, H) (tw, th) e)
      \<and> (\<forall>e. pan_frames lib (W, H) tw th n = Inl e \<longrightarrow> raised_by lib (W, H) (tw, th) e)
      \<and> (never_raises lib \<longrightarrow>
            (\<exists>f. crop_and_resize_to_ad_size lib (W, H) tw th = Inr f)
          \<and> (\<exists>fs. pan_frames lib (W, H) tw th n = Inr fs)))"
proof -
  have contract: "s = (tw, th)"
    if "resize_returns lib (W, H) c (tw, th) = Inr s" "resize_contract lib" for c s
    using that unfolding resize_contract_def by blast
  have one: "resize_returns lib (W, H) (cropping f) (tw, th) = Inr (dims f)
      \<and> (resize_contract lib \<longrightarrow> dims f = (tw, th))"
    if "crop_and_resize_to_ad_size lib (W, H) tw th = Inr f" for f
    using crop_answer[OF that] contract by blast
  have each: "resize_returns lib (W, H) (cropping g) (tw, th) = Inr (dims g)
      \<and> (resize_contract lib \<longrightarrow> dims g = (tw, th))"
    if fs: "pan_frames lib (W, H) tw th n = Inr fs" and g: "g \<in> set fs" for g
  proof -
    obtain m where m: "pan_range (W, H) tw th = Inr m" using pan_frames_range[OF fs] by blast
    have "resize_returns lib (W, H) (cropping g) (tw, th) = Inr (dims g)"
    proof (cases "0 < m")
      case True
      obtain k where k: "k < length fs" "g = fs ! k" using g by (auto simp add: in_set_conv_nth)
      have "k < nat n" using k(1) pan_sequence(1)[OF m True fs] by simp
      then show ?thesis unfolding k(2) by (rule pan_sequence(3)[OF m True fs])
    next
      case False
      obtain f' where "crop_and_resize_to_ad_size lib (W, H) tw th = Inr f'" "fs = [f']"
        using pan_single_frame[OF m False fs] by blast
      then show ?thesis using g crop_answer[of lib W H tw th f'] by simp
    qed
    then show ?thesis using contract by blast
  qed
  have count: "length fs = (if 0 < m then nat n else 1)"
    if fs: "pan_frames lib (W, H) tw th n = Inr fs" and m: "pan_range (W, H) tw th = Inr m" for m
  proof (cases "0 < m")
    case True
    then show ?thesis using pan_sequence(1)[OF m True fs] by simp
  next
    case False
    then show ?thesis using pan_single_frame[OF m False fs] by auto
  qed
  have total: "(\<forall>e. crop_and_resize_to_ad_size lib (W, H) tw th = Inl e
            \<longrightarrow> raised_by lib (W, H) (tw, th) e)
      \<and> (\<forall>e. pan_frames lib (W, H) tw th n = Inl e \<longrightarrow> raised_by lib (W, H) (tw, th) e)
      \<and> (never_raises lib \<longrightarrow>
            (\<exists>f. crop_and_resize_to_ad_size lib (W, H) tw th = Inr f)
          \<and> (\<exists>fs. pan_frames lib (W, H) tw th n = Inr fs))"
    if d: "dimension W" "dimension H" "dimension tw" "dimension th"
    using crop_raises_library[OF d] pan_raises_library[OF d] crop_total[OF d]
      pan_frames_total[OF d] by blast
  show ?thesis using one each count total by blast
qed

theorem frame_dimensions_witness:
  "dimension 4 \<and> dimension 2 \<and> dimension 1 \<and> resize_contract ideal_library
   \<and> never_raises ideal_library \<and> pan_range (4, 4) 2 1 = Inr 2
   \<and> crop_and_resize_to_ad_size ideal_library (4, 4) 2 1
       = Inr \<lparr>cropping = Crop 0 1 4 3, dims = (2, 1)\<rparr>
   \<and> resize_returns ideal_library (4, 4) (Crop 0 1 4 3) (2, 1) = Inr (2, 1)
   \<and> dims \<lparr>cropping = Crop 0 1 4 3, dims = (2, 1)\<rparr> = (2, 1)
   \<and> resize_returns ideal_library (4, 4) (Crop 0 2 4 4) (2, 1) = Inr (2, 1)
   \<and> length [\<lparr>cropping = Crop 0 0 4 2, dims = (2, 1)\<rparr>,
              \<lparr>cropping = Crop 0 1 4 3, dims = (2, 1)\<rparr>,
              \<lparr>cropping = Crop 0 2 4 4, dims = (2, 1)\<rparr>] = nat 3
   \<and> (\<exists>f. crop_and_resize_to_ad_size ideal_library (4, 4) 2 1 = Inr f)
   \<and> (\<exists>fs. pan_frames ideal_library (4, 4) 2 1 3 = Inr fs)
   \<and> crop_and_resize_to_ad_size
        (ideal_library\<lparr>resize_returns := (\<lambda>img cropped new_size. Inl OverflowError)\<rparr>)
        (4, 4) 2 1 = Inl OverflowError
   \<and> raised_by
        (ideal_library\<lparr>resize_returns := (\<lambda>img cropped new_size. Inl OverflowError)\<rparr>)
        (4, 4) (2, 1) OverflowError"
  using frame_dimensions[of ideal_library 4 4 2 1
      "\<lparr>cropping = Crop 0 1 4 3, dims = (2, 1)\<rparr>" 3
      "[\<lparr>cropping = Crop 0 0 4 2, dims = (2, 1)\<rparr>,
        \<lparr>cropping = Crop 0 1 4 3, dims = (2, 1)\<rparr>,
        \<lparr>cropping = Crop 0 2 4 4, dims = (2, 1)\<rparr>]"]
    frame_dimensions[of
      "ideal_library\<lparr>resize_returns := (\<lambda>img cropped new_size. Inl OverflowError)\<rparr>"
      4 4 2 1 "\<lparr>cropping = Crop 0 1 4 3, dims = (2, 1)\<rparr>" 3 "[]"]
    small_crop small_frames small_range ideal_contract ideal_never_raises small_overflow
  by (simp add: dimension_def)

text \<open>
  Claim C4, the medium rectangle (304, 248) on the master image of 1024 by 1024. The
  target is wider than tall, so the landscape branch runs: the window is the full width
  1024 by \<^verbatim>\<open>int(1024 / (304 / 248))\<close> = 835 rows, no shrinking takes place, the pan range is
  1024 - 835 = 189, and the loop asks for one frame per index, from row 0 to row 189. (The
  product \<^verbatim>\<open>int(1024 * (304 / 248))\<close> is 1255, but this branch never computes it.)
\<close>

theorem medium_rectangle_pan:
  "int_truediv 304 248 = Inr (round_double (304 / 248))
   \<and> ebind (int_mul_float 1024 (round_double (304 / 248))) py_int = Inr 1255
   \<and> landscape_window (1024, 1024) (round_double (304 / 248)) = Inr (1024, 835)
   \<and> pan_range (1024, 1024) 304 248 = Inr 189
   \<and> pan_frames lib (1024, 1024) 304 248 3 =
       collect (\<lambda>top. ebind (image_crop lib (1024, 1024) (0, top, 1024, top + 835))
                  (\<lambda>cropped. image_resize lib (1024, 1024) cropped (304, 248)))
         [0, 94, 189]
   \<and> (\<exists>fs. pan_frames ideal_library (1024, 1024) 304 248 n = Inr fs \<and> length fs = nat n)
   \<and> pan_frames ideal_library (1024, 1024) 304 248 3 =
       Inr [\<lparr>cropping = Crop 0 0 1024 835, dims = (304, 248)\<rparr>,
            \<lparr>cropping = Crop 0 94 1024 929, dims = (304, 248)\<rparr>,
            \<lparr>cropping = Crop 0 189 1024 1024, dims = (304, 248)\<rparr>]"
proof -
  have d: "dimension 1024" by (simp add: dimension_def)
  obtain fs where fs: "pan_frames ideal_library (1024, 1024) 304 248 n = Inr fs"
    using pan_sequence_total[OF rectangle_range _ d d _ _ ideal_never_raises, of n] by auto
  have "length fs = nat n" using rectangle_range _ fs by (rule pan_sequence(1)) simp
  then show ?thesis
    using fs rectangle_aspect rectangle_width rectangle_window rectangle_range
      rectangle_requests[of lib] rectangle_frames
    by blast
qed

theorem medium_rectangle_not_190:
  "pan_range (1024, 1024) 304 248 \<noteq> Inr 190
   \<and> landscape_window (1024, 1024) (round_double (304 / 248)) \<noteq> Inr (1024, 834)"
  using rectangle_range rectangle_window by simp

text \<open>
  Claim C5, the degenerate case. When the pan range is not positive, the call produces
  exactly one frame, the result of \<^verbatim>\<open>crop_and_resize_to_ad_size\<close> on the same arguments,
  and saves it alone.
\<close>

theorem degenerate_pan:
  assumes "pan_range (W, H) tw th = Inr m" "m \<le> 0"
  shows "pan_frames lib (W, H) tw th n
      = ebind (crop_and_resize_to_ad_size lib (W, H) tw th) (\<lambda>f. Inr [f])
    \<and> create_panning_gif lib (W, H) tw th p n d
      = ebind (crop_and_resize_to_ad_size lib (W, H) tw th) (\<lambda>f.
          image_save lib
            \<lparr>path = p, first_frame = f, append_images = [], duration = d, loop = 0\<rparr>)
    \<and> (dimension W \<and> dimension H \<and> dimension tw \<and> dimension th \<and> never_raises lib \<longrightarrow>
         (\<exists>f. crop_and_resize_to_ad_size lib (W, H) tw th = Inr f
            \<and> pan_frames lib (W, H) tw th n = Inr [f]
            \<and> create_panning_gif lib (W, H) tw th p n d
                = Inr (Some \<lparr>path = p, first_frame = f, append_images = [],
                              duration = d, loop = 0\<rparr>)))"
proof -
  have m: "\<not> 0 < m" using assms(2) by simp
  have s: "pan_frames lib (W, H) tw th n
      = ebind (crop_and_resize_to_ad_size lib (W, H) tw th) (\<lambda>f. Inr [f])"
    using assms(1) m by (rule pan_single)
  have g: "create_panning_gif lib (W, H) tw th p n d
      = ebind (crop_and_resize_to_ad_size lib (W, H) tw th) (\<lambda>f.
          image_save lib
            \<lparr>path = p, first_frame = f, append_images = [], duration = d, loop = 0\<rparr>)"
    unfolding create_panning_gif_def s
    by (cases "crop_and_resize_to_ad_size lib (W, H) tw th") simp_all
  have "\<exists>f. crop_and_resize_to_ad_size lib (W, H) tw th = Inr f
      \<and> pan_frames lib (W, H) tw th n = Inr [f]
      \<and> create_panning_gif lib (W, H) tw th p n d
          = Inr (Some \<lparr>path = p, first_frame = f, append_images = [],
                        duration = d, loop = 0\<rparr>)"
    if "dimension W" "dimension H" "dimension tw" "dimension th" "never_raises lib"
    using crop_total[OF that] s g never_raises_save[OF that(5)] by auto
  then show ?thesis using s g by blast
qed

theorem degenerate_pan_witness:
  "pan_range (4, 4) 1 1 = Inr 0 \<and> (0::int) \<le> 0 \<and> dimension 4 \<and> dimension 1
   \<and> never_raises ideal_library
   \<and> pan_frames ideal_library (4, 4) 1 1 3 = Inr [\<lparr>cropping = Uncropped, dims = (1, 1)\<rparr>]
   \<and> create_panning_gif ideal_library (4, 4) 1 1 ''pan.gif'' 3 100
      = Inr (Some \<lparr>path = ''pan.gif'', first_frame = \<lparr>cropping = Uncropped, dims = (1, 1)\<rparr>,
                    append_images = [], duration = 100, loop = 0\<rparr>)"
  using degenerate_pan[of 4 4 1 1 0 ideal_library 3 "''pan.gif''" 100] square_range square_crop
    ideal_never_raises
  by (simp add: dimension_def ideal_save)

text \<open>
  Claim C6, the target is not validated. Neither function checks the sign of
  \<open>target_width\<close> or \<open>target_height\<close>. A target height of 0 raises \<^verbatim>\<open>ZeroDivisionError\<close> at the
  first division, \<^verbatim>\<open>target_width / target_height\<close>, for every image and width, and the
  exception reaches the caller. A target width of 0 with any other height is not rejected
  by the code: \<^verbatim>\<open>crop_and_resize_to_ad_size\<close> computes an empty box, crops it and asks for
  a resize to (0, th), so that the outcome is the library's, and an exception raised
  there reaches the caller after the computation; \<^verbatim>\<open>create_panning_gif\<close> with no frames to
  make returns without any exception, and without a file.
\<close>

theorem target_not_validated:
  "crop_and_resize_to_ad_size lib img tw 0 = Inl ZeroDivisionError
   \<and> pan_frames lib img tw 0 n = Inl ZeroDivisionError
   \<and> create_panning_gif lib img tw 0 p n d = Inl ZeroDivisionError
   \<and> (dimension W \<and> dimension H \<and> th \<noteq> 0 \<longrightarrow>
        crop_and_resize_to_ad_size lib (W, H) 0 th
          = ebind (image_crop lib (W, H) (W div 2, 0, W div 2, H))
              (\<lambda>cropped. image_resize lib (W, H) cropped (0, th))
      \<and> (\<forall>e. crop_raises lib (W, H) (W div 2, 0, W div 2, H) = None
              \<and> resize_returns lib (W, H) (Crop (W div 2) 0 (W div 2) H) (0, th) = Inl e
            \<longrightarrow> crop_and_resize_to_ad_size lib (W, H) 0 th = Inl e))
   \<and> (dimension W \<and> dimension H \<and> 0 < th \<longrightarrow>
        pan_frames lib (W, H) 0 th 0 = Inr []
      \<and> create_panning_gif lib (W, H) 0 th p 0 d = Inr None)"
proof -
  obtain w h where img: "img = (w, h)" by (cases img)
  have c: "crop_and_resize_to_ad_size lib img tw 0 = Inl ZeroDivisionError"
    by (simp add: crop_and_resize_to_ad_size_def img zero_height)
  have f: "pan_frames lib img tw 0 n = Inl ZeroDivisionError"
    by (simp add: pan_frames_def img zero_height)
  then have g: "create_panning_gif lib img tw 0 p n d = Inl ZeroDivisionError"
    by (simp add: create_panning_gif_def)
  have z: "crop_and_resize_to_ad_size lib (W, H) 0 th
          = ebind (image_crop lib (W, H) (W div 2, 0, W div 2, H))
              (\<lambda>cropped. image_resize lib (W, H) cropped (0, th))
      \<and> (\<forall>e. crop_raises lib (W, H) (W div 2, 0, W div 2, H) = None
              \<and> resize_returns lib (W, H) (Crop (W div 2) 0 (W div 2) H) (0, th) = Inl e
            \<longrightarrow> crop_and_resize_to_ad_size lib (W, H) 0 th = Inl e)"
    if "dimension W" "dimension H" "th \<noteq> 0"
    using zero_width_crop[OF that, of lib] by (simp add: image_crop_def image_resize_def)
  have e: "pan_frames lib (W, H) 0 th 0 = Inr []
      \<and> create_panning_gif lib (W, H) 0 th p 0 d = Inr None"
    if "dimension W" "dimension H" "0 < th"
    using zero_width_pan(2)[OF that, of lib] by (simp add: create_panning_gif_def)
  show ?thesis using c f g z e by blast
qed

theorem target_not_validated_witness:
  "dimension 4 \<and> (1::int) \<noteq> 0 \<and> (0::int) < 1
   \<and> crop_and_resize_to_ad_size strict_library (4, 4) 0 1 = Inl ValueError
   \<and> pan_frames strict_library (4, 4) 0 1 0 = Inr []
   \<and> create_panning_gif strict_library (4, 4) 0 1 ''pan.gif'' 0 100 = Inr None"
  using target_not_validated[where lib = strict_library and W = 4 and H = 4 and th = 1
      and p = "''pan.gif''" and d = 100]
  by (simp add: dimension_def strict_crop strict_resize)

theorem zero_width_target_accepted:
  "\<forall>lib p d. create_panning_gif lib (10, 10) 0 5 p 0 d = Inr None"
  using zero_width_pan(2)[of 10 10 5] by (simp add: dimension_def create_panning_gif_def)

text \<open>
  Claim C7, the traversal is never reversed. In the list of frames of a call the offset
  along the pan axis does not decrease with the index.
\<close>

theorem offsets_monotone:
  assumes "pan_frames lib (W, H) tw th n = Inr fs" "i \<le> j" "j < length fs"
  shows "pan_position tw th (fs ! i) \<le> pan_position tw th (fs ! j)"
proof -
  obtain m where m: "pan_range (W, H) tw th = Inr m"
    using pan_frames_range[OF assms(1)] by blast
  show ?thesis
  proof (cases "0 < m")
    case True
    have j: "j < nat n" using assms(3) pan_sequence(1)[OF m True assms(1)] by simp
    then have i: "i < nat n" using assms(2) by simp
    have "pan_offset m n (int i) = Inr (pan_position tw th (fs ! i))"
      using m True assms(1) i by (rule pan_sequence(2))
    moreover have "pan_offset m n (int j) = Inr (pan_position tw th (fs ! j))"
      using m True assms(1) j by (rule pan_sequence(2))
    moreover have "0 \<le> m" using True by simp
    moreover have "0 \<le> int i" by simp
    moreover have "int i \<le> int j" using assms(2) by simp
    ultimately show ?thesis by (rule pan_offset_mono)
  next
    case False
    obtain f where "fs = [f]" using pan_single_frame[OF m False assms(1)] by blast
    then have "i = j" using assms(2,3) by simp
    then show ?thesis by simp
  qed
qed

theorem offsets_monotone_witness:
  "(1::nat) \<le> 2
   \<and> pan_position 2 1 ([\<lparr>cropping = Crop 0 0 4 2, dims = (2, 1)\<rparr>,
                        \<lparr>cropping = Crop 0 1 4 3, dims = (2, 1)\<rparr>,
                        \<lparr>cropping = Crop 0 2 4 4, dims = (2, 1)\<rparr>] ! 1)
     \<le> pan_position 2 1 ([\<lparr>cropping = Crop 0 0 4 2, dims = (2, 1)\<rparr>,
                        \<lparr>cropping = Crop 0 1 4 3, dims = (2, 1)\<rparr>,
                        \<lparr>cropping = Crop 0 2 4 4, dims = (2, 1)\<rparr>] ! 2)"
  using offsets_monotone[of ideal_library 4 4 2 1 3
      "[\<lparr>cropping = Crop 0 0 4 2, dims = (2, 1)\<rparr>,
        \<lparr>cropping = Crop 0 1 4 3, dims = (2, 1)\<rparr>,
        \<lparr>cropping = Crop 0 2 4 4, dims = (2, 1)\<rparr>]" 1 2]
    small_frames
  by simp

text \<open>
  Claim C8, the pan range is never negative. \<^verbatim>\<open>max_top\<close> (or \<^verbatim>\<open>max_left\<close>) is at least 0,
  because the window is capped at the extent of the image; so the single centre crop is
  produced when the range is 0, and otherwise the loop runs, one frame per index at the
  offset of that index.
\<close>

theorem pan_range_nonneg:
  assumes "pan_range (W, H) tw th = Inr m"
  shows "0 \<le> m
    \<and> (m = 0 \<longrightarrow> pan_frames lib (W, H) tw th n
          = ebind (crop_and_resize_to_ad_size lib (W, H) tw th) (\<lambda>f. Inr [f]))
    \<and> (m \<noteq> 0 \<longrightarrow>
          (pan_frames lib (W, H) tw th n = Inr fs \<longrightarrow> length fs = nat n
              \<and> (\<forall>k<nat n. pan_offset m n (int k) = Inr (pan_position tw th (fs ! k))))
        \<and> (dimension W \<and> dimension H \<and> 0 < tw \<and> 0 < th \<and> never_raises lib \<longrightarrow>
              (\<exists>fs. pan_frames lib (W, H) tw th n = Inr fs \<and> length fs = nat n
                 \<and> (\<forall>k<nat n. pan_offset m n (int k) = Inr (pan_position tw th (fs ! k))))))"
proof -
  have m0: "0 \<le> m" using assms by (rule pan_range_ge_0)
  have zero: "pan_frames lib (W, H) tw th n
      = ebind (crop_and_resize_to_ad_size lib (W, H) tw th) (\<lambda>f. Inr [f])" if "m = 0"
  proof -
    have "\<not> 0 < m" using that by simp
    with assms show ?thesis by (rule pan_single)
  qed
  have seq: "length fs' = nat n
      \<and> (\<forall>k<nat n. pan_offset m n (int k) = Inr (pan_position tw th (fs' ! k)))"
    if "m \<noteq> 0" "pan_frames lib (W, H) tw th n = Inr fs'" for fs'
  proof -
    have p: "0 < m" using m0 that(1) by simp
    show ?thesis using pan_sequence(1,2)[OF assms p that(2)] by blast
  qed
  have ex: "\<exists>fs. pan_frames lib (W, H) tw th n = Inr fs \<and> length fs = nat n
      \<and> (\<forall>k<nat n. pan_offset m n (int k) = Inr (pan_position tw th (fs ! k)))"
    if h: "m \<noteq> 0" "dimension W" "dimension H" "0 < tw" "0 < th" "never_raises lib"
  proof -
    have p: "0 < m" using m0 h(1) by simp
    obtain fs' where "pan_frames lib (W, H) tw th n = Inr fs'"
      using pan_sequence_total[OF assms p h(2,3,4,5,6)] by blast
    then show ?thesis using seq[OF h(1)] by blast
  qed
  show ?thesis using m0 zero seq ex by blast
qed

theorem pan_range_nonneg_witness:
  "dimension 4 \<and> never_raises ideal_library
   \<and> pan_range (4, 4) 1 1 = Inr 0 \<and> pan_range (4, 4) 2 1 = Inr 2
   \<and> pan_frames ideal_library (4, 4) 1 1 3 = Inr [\<lparr>cropping = Uncropped, dims = (1, 1)\<rparr>]
   \<and> (\<exists>fs. pan_frames ideal_library (4, 4) 2 1 3 = Inr fs \<and> length fs = nat 3
        \<and> (\<forall>k<nat 3. pan_offset 2 3 (int k) = Inr (pan_position 2 1 (fs ! k))))"
  using pan_range_nonneg[of 4 4 1 1 0 ideal_library 3]
    pan_range_nonneg[of 4 4 2 1 2 ideal_library 3]
    square_range square_crop small_range ideal_never_raises
  by (simp add: dimension_def)

text \<open>
  Claim C9, an empty crop window from positive sizes. For the image of 10 by 10 and the
  target (1, 1000), \<^verbatim>\<open>new_width = int(10 * (1 / 1000))\<close> is 0: the box passed to \<^verbatim>\<open>image.crop\<close>
  is (5, 0, 5, 10), of width 0, and its crop is what is passed on to \<^verbatim>\<open>resize\<close>.
\<close>

theorem positive_sizes_empty_window:
  "dimension 10 \<and> (0::int) < 1 \<and> (0::int) < 1000
   \<and> crop_and_resize_to_ad_size lib (10, 10) 1 1000
      = ebind (image_crop lib (10, 10) (5, 0, 5, 10))
          (\<lambda>cropped. image_resize lib (10, 10) cropped (1, 1000))
   \<and> crop_and_resize_to_ad_size ideal_library (10, 10) 1 1000
      = Inr \<lparr>cropping = Crop 5 0 5 10, dims = (1, 1000)\<rparr>"
  using sliver_crop[of lib] sliver_crop[of ideal_library]
  by (simp add: dimension_def ideal_crop ideal_resize)

text \<open>
  Claim C10, no frames, no file. Called with \<^verbatim>\<open>num_frames = 0\<close> on a positive pan range,
  the loop body never runs, \<^verbatim>\<open>frames\<close> stays empty, the trailing \<^verbatim>\<open>if frames:\<close> skips the
  save, and the call returns without an exception.
\<close>

theorem no_frames_no_file:
  assumes "pan_range (W, H) tw th = Inr m" "0 < m"
  shows "pan_frames lib (W, H) tw th 0 = Inr []
    \<and> create_panning_gif lib (W, H) tw th p 0 d = Inr None"
  using pan_no_frames[OF assms, of lib] by (simp add: create_panning_gif_def)

theorem no_frames_no_file_witness:
  "pan_range (4, 4) 2 1 = Inr 2 \<and> (0::int) < 2
   \<and> pan_frames ideal_library (4, 4) 2 1 0 = Inr []
   \<and> create_panning_gif ideal_library (4, 4) 2 1 ''pan.gif'' 0 100 = Inr None"
  using no_frames_no_file[of 4 4 2 1 2 ideal_library "''pan.gif''" 100] small_range by simp

end
